theory Spec2Isabelle
  imports
    Complex_Main
    "HOL-Library.Word"
    "HOL-Library.AList"
    "HOL-Library.Char_ord"
    "HOL-Library.List_Lexorder"
    "HOL-Library.Log_Nat"
begin

section \<open>sdhasher: the data of main.go\<close>

text \<open>
  The program keeps a cache of SHA-256 digests of model files. This theory embeds
  \<^verbatim>\<open>main.go\<close>: the worker that hashes one file, the staleness loop over the loaded
  cache, the directory scan, the collector that merges results, and the encoder.

  Conventions of the embedding.
  \<^item> A \<^verbatim>\<open>time.Time\<close> is the instant it denotes, in nanoseconds since the Unix epoch,
    an \<open>int\<close>; a \<^verbatim>\<open>time.Duration\<close> is a number of nanoseconds. The library keeps the
    seconds of a time in an \<^verbatim>\<open>int64\<close> counted from the year 1 and computes in
    \<^verbatim>\<open>int64\<close>: \<open>Unix\<close> and \<open>UnixNano\<close> wrap around as the library does.
  \<^item> A \<^verbatim>\<open>float64\<close> is a sign bit and a magnitude, so that negative zero is a value of
    its own. An operation rounds its exact result to the nearest float, a tie to the even
    one, with the 53 bits and the subnormal range of the format. Infinities and NaN are
    not values: no operation of the program yields one, and the decoder reports a number
    out of range as an error, on which \<^verbatim>\<open>main\<close> stops.
  \<^item> A Go map is an association list; the order of the list is the order in which
    \<^verbatim>\<open>range\<close> happens to enumerate the map, which Go leaves unspecified. Keys are
    distinct in a well-formed map.
  \<^item> Functions of the Go standard library and the state of the file system are the
    fields of a record \<open>world\<close>, so every theorem holds for every behaviour of them
    unless it says otherwise.
  \<^item> The goroutines are run in sequence: the two producers of tasks first, then the
    workers in the order of the task channel, then the collector in that order. At
    least one worker runs (\<^verbatim>\<open>MaxHashers\<close> is not negative), the file system does not
    change during a run, and a file is finite, so that the loop of the worker ends.
\<close>

type_synonym byte = "8 word"
type_synonym Time = int
type_synonym Duration = int

record float64 =
  signbit :: bool
  mag :: rat

type_synonym MTime = float64

datatype error = EOF | ENOENT | EACCES | EIO | EISDIR | ErrRel

record FileInfo =
  ModTime :: Time
  IsDir :: bool

record DirEntry =
  IsDir :: bool
  Info :: "error + FileInfo"

record entry =
  MTime :: MTime
  SHA256 :: string
  path :: string

record cache =
  Hashes :: "(string \<times> entry) list"
  HashesAddnet :: "(string \<times> entry) list option"

record task =
  path :: string
  d :: DirEntry

text \<open>
  A call of \<^verbatim>\<open>fn\<close> by \<^verbatim>\<open>filepath.WalkDir\<close>: with a directory entry (and an error
  when the directory could not be read), or with a nil entry and the error of the
  failed \<^verbatim>\<open>Lstat\<close> of the root.
\<close>

datatype visit = Visit string DirEntry "error option" | VisitNil string error

text \<open>
  An open file is the list of the results its successive \<^verbatim>\<open>Read\<close> calls return, each
  the bytes stored into the buffer and the error; once the list is used up, \<^verbatim>\<open>Read\<close>
  returns \<^verbatim>\<open>0, io.EOF\<close>.
\<close>

type_synonym reader = "(byte list \<times> error option) list"

record world =
  Path :: string
  Join :: "string \<Rightarrow> string \<Rightarrow> string"
  Rel :: "string \<Rightarrow> string \<Rightarrow> error + string"
  Ext :: "string \<Rightarrow> string"
  ToLower :: "string \<Rightarrow> string"
  Stat :: "string \<Rightarrow> error + FileInfo"
  WalkDir :: "string \<Rightarrow> visit list"
  Open :: "string \<Rightarrow> error + reader"
  Sum256 :: "byte list \<Rightarrow> byte list"
  Int64Overflow :: "float64 \<Rightarrow> int"

section \<open>Arithmetic of float64\<close>

text \<open>Rounding to the nearest integer, a tie to the even one.\<close>

definition round_half_even :: "rat \<Rightarrow> int" where
  "round_half_even x =
     (let f = \<lfloor>x\<rfloor>; r = x - of_int f
      in if r < 1 / 2 then f
         else if 1 / 2 < r then f + 1
         else if even f then f else f + 1)"

text \<open>
  The binary exponent of a positive number \<open>x\<close>: \<open>2\<^sup>e \<le> x < 2\<^sup>e\<^sup>+\<^sup>1\<close>. The floats around
  \<open>x\<close> are the multiples of \<open>ulp x\<close>, which is \<open>2\<^sup>e\<^sup>-\<^sup>5\<^sup>2\<close> and, below the normal range,
  \<open>2\<^sup>-\<^sup>1\<^sup>0\<^sup>7\<^sup>4\<close>; \<open>rnd\<close> is the rounding of a magnitude to the nearest float.
\<close>

definition expo :: "rat \<Rightarrow> int" where
  "expo x =
     (let p = fst (quotient_of x); q = snd (quotient_of x); e = bitlen p - bitlen q
      in if 2 powi e \<le> x then e else e - 1)"

definition ulp :: "rat \<Rightarrow> rat" where
  "ulp x = 2 powi (max (expo x) (- 1022) - 52)"

definition rnd :: "rat \<Rightarrow> rat" where
  "rnd x = of_int (round_half_even (x / ulp x)) * ulp x"

definition float_val :: "float64 \<Rightarrow> rat" where
  "float_val x = (if signbit x then - mag x else mag x)"

text \<open>
  The float of an exact result \<open>r\<close>: of a constant, of the conversion \<^verbatim>\<open>float64(i)\<close> of an
  integer, of a sum that is not zero.
\<close>

definition f64 :: "rat \<Rightarrow> float64" where
  "f64 r = \<lparr>signbit = r < 0, mag = rnd \<bar>r\<bar>\<rparr>"

text \<open>Division by a float that is not zero; addition, where an exact sum of zero is positive
  unless both terms are negative zeros.\<close>

definition fdiv :: "float64 \<Rightarrow> float64 \<Rightarrow> float64" where
  "fdiv a b = \<lparr>signbit = (signbit a \<noteq> signbit b), mag = rnd (mag a / mag b)\<rparr>"

definition fadd :: "float64 \<Rightarrow> float64 \<Rightarrow> float64" where
  "fadd a b =
     (if float_val a + float_val b = 0 then \<lparr>signbit = signbit a \<and> signbit b, mag = 0\<rparr>
      else f64 (float_val a + float_val b))"

text \<open>The integer part of a float, the fraction discarded.\<close>

definition trunc :: "float64 \<Rightarrow> int" where
  "trunc x = (if signbit x then - \<lfloor>mag x\<rfloor> else \<lfloor>mag x\<rfloor>)"

text \<open>A value of the type: the magnitude is a float.\<close>

definition float64_ok :: "float64 \<Rightarrow> bool" where
  "float64_ok x \<longleftrightarrow> 0 \<le> mag x \<and> rnd (mag x) = mag x"

section \<open>Formatting\<close>

text \<open>\<^verbatim>\<open>fmt.Sprintf("%x", hash)\<close> on a byte slice: two lowercase hexadecimal digits a byte.\<close>

definition hexdigit :: "nat \<Rightarrow> char" where
  "hexdigit n = ''0123456789abcdef'' ! (n mod 16)"

definition hex_byte :: "byte \<Rightarrow> string" where
  "hex_byte b = [hexdigit (unat b div 16), hexdigit (unat b mod 16)]"

definition Sprintf_x :: "byte list \<Rightarrow> string" where
  "Sprintf_x bs = concat (map hex_byte bs)"

text \<open>
  \<^verbatim>\<open>fmt.Sprintf("%.7f", m)\<close>: the sign, the integer part in decimal, a point and seven
  digits, the magnitude rounded to the nearest multiple of \<open>10\<^sup>-\<^sup>7\<close>, a tie to the even
  one. The sign is that of the float, also when the digits are all zero.
\<close>

definition digit_char :: "nat \<Rightarrow> char" where
  "digit_char n = ''0123456789'' ! (n mod 10)"

fun decimal :: "nat \<Rightarrow> string" where
  "decimal n = (if n < 10 then [digit_char n] else decimal (n div 10) @ [digit_char (n mod 10)])"

declare decimal.simps [simp del]

definition frac7 :: "nat \<Rightarrow> string" where
  "frac7 n = replicate (7 - length (decimal n)) (CHR ''0'') @ decimal n"

definition Sprintf_7f :: "float64 \<Rightarrow> string" where
  "Sprintf_7f m =
     (let n = nat (round_half_even (mag m * 10 ^ 7))
      in (if signbit m then ''-'' else '''') @ decimal (n div 10 ^ 7) @ ''.'' @ frac7 (n mod 10 ^ 7))"

definition MarshalJSON :: "MTime \<Rightarrow> string" where
  "MarshalJSON m = Sprintf_7f m"

section \<open>Time\<close>

definition Second :: Duration where
  "Second = 10 ^ 9"

definition minDuration :: Duration where
  "minDuration = - (2 ^ 63)"

definition maxDuration :: Duration where
  "maxDuration = 2 ^ 63 - 1"

text \<open>The value an \<^verbatim>\<open>int64\<close> computation leaves: the result modulo \<open>2\<^sup>6\<^sup>4\<close>, signed.\<close>

definition wrap64 :: "int \<Rightarrow> int" where
  "wrap64 i = (i + 2 ^ 63) mod 2 ^ 64 - 2 ^ 63"

text \<open>\<^verbatim>\<open>t.UnixNano()\<close>: seconds times \<open>10\<^sup>9\<close> plus nanoseconds, computed in \<^verbatim>\<open>int64\<close>.\<close>

definition UnixNano :: "Time \<Rightarrow> int" where
  "UnixNano t = wrap64 t"

text \<open>
  \<^verbatim>\<open>time.Unix(sec, nsec)\<close>: the nanoseconds are brought into \<open>[0, 10\<^sup>9)\<close>, and the seconds
  are stored as \<^verbatim>\<open>sec + unixToInternal\<close>, an \<^verbatim>\<open>int64\<close> sum.
\<close>

definition unixToInternal :: int where
  "unixToInternal = 62135596800"

definition Unix :: "int \<Rightarrow> int \<Rightarrow> Time" where
  "Unix sec nsec =
     (wrap64 (wrap64 (sec + nsec div 10 ^ 9) + unixToInternal) - unixToInternal) * 10 ^ 9
       + nsec mod 10 ^ 9"

text \<open>\<^verbatim>\<open>t.Sub(u)\<close>: the difference, or the largest or smallest duration when it does not fit.\<close>

definition Sub :: "Time \<Rightarrow> Time \<Rightarrow> Duration" where
  "Sub t u =
     (if t - u < minDuration then minDuration
      else if maxDuration < t - u then maxDuration
      else t - u)"

text \<open>
  The conversion \<^verbatim>\<open>int64(x)\<close> of a float: the fraction is discarded; when the integer
  part does not fit, the result is what the implementation makes of it, a field of the
  world.
\<close>

definition int64 :: "world \<Rightarrow> float64 \<Rightarrow> int" where
  "int64 w x =
     (if - (2 ^ 63) \<le> trunc x \<and> trunc x < 2 ^ 63 then trunc x
      else wrap64 (Int64Overflow w x))"

section \<open>The worker\<close>

text \<open>
  The state of the running hash is the bytes written so far; \<^verbatim>\<open>Sum\<close> is the SHA-256
  function of the world applied to them. \<^verbatim>\<open>Write\<close> returns the count and a nil error.
\<close>

definition New :: "byte list" where
  "New = []"

definition Write :: "byte list \<Rightarrow> byte list \<Rightarrow> byte list \<times> nat \<times> error option" where
  "Write h p = (h @ p, length p, None)"

definition Sum :: "world \<Rightarrow> byte list \<Rightarrow> byte list" where
  "Sum w h = Sum256 w h"

text \<open>
  Lines 67 to 79. Each round reads once, returns the error of a read that brought
  bytes, writes the bytes to the hash, and goes on while the read brought bytes.
\<close>

fun worker_loop :: "reader \<Rightarrow> byte list \<Rightarrow> error + byte list" where
  "worker_loop [] h =
     (case Write h [] of
        (h', _, Some e) \<Rightarrow> Inl e
      | (h', _, None) \<Rightarrow> Inr h')"
| "worker_loop ((buf, err) # f) h =
     (if length buf \<noteq> 0 \<and> err \<noteq> None then Inl (the err)
      else (case Write h buf of
              (h', _, Some e) \<Rightarrow> Inl e
            | (h', _, None) \<Rightarrow> if 0 < length buf then worker_loop f h' else Inr h'))"

definition worker :: "world \<Rightarrow> task \<Rightarrow> error + entry" where
  "worker w t =
     (case Info (d t) of
        Inl err \<Rightarrow> Inl err
      | Inr info \<Rightarrow>
          (let mtime = fadd (fdiv (f64 (of_int (UnixNano (ModTime info)))) (f64 (10 ^ 9))) (f64 1)
           in case Open w (task.path t) of
                Inl err \<Rightarrow> Inl err
              | Inr f \<Rightarrow>
                  (case worker_loop f New of
                     Inl err \<Rightarrow> Inl err
                   | Inr h \<Rightarrow>
                       Inr \<lparr>MTime = mtime, SHA256 = Sprintf_x (Sum w h), path = task.path t\<rparr>)))"

section \<open>The pipeline of main\<close>

text \<open>The variables of \<^verbatim>\<open>main\<close> that the loops change.\<close>

record state =
  result :: cache
  taskChan :: "task list"
  knownFiles :: "string set"

definition TrimPrefix :: "string \<Rightarrow> string \<Rightarrow> string" where
  "TrimPrefix s prefix = (if take (length prefix) s = prefix then drop (length prefix) s else s)"

definition FileInfoToDirEntry :: "FileInfo \<Rightarrow> DirEntry" where
  "FileInfoToDirEntry fi = \<lparr>IsDir = FileInfo.IsDir fi, Info = Inr fi\<rparr>"

text \<open>Line 137: the path a cache key stands for.\<close>

definition modelPath :: "world \<Rightarrow> string \<Rightarrow> string" where
  "modelPath w p = Join w (Path w) (TrimPrefix p ''checkpoint/'')"

text \<open>Line 144: the test that sends a cached file to be hashed again.\<close>

definition changed :: "world \<Rightarrow> FileInfo \<Rightarrow> entry \<Rightarrow> bool" where
  "changed w fi e \<longleftrightarrow> Second * 2 < Sub (ModTime fi) (Unix (int64 w (MTime e)) 0)"

text \<open>Lines 137 to 148: the body of the loop over the loaded cache.\<close>

definition staleness_step :: "world \<Rightarrow> string \<times> entry \<Rightarrow> state \<Rightarrow> state" where
  "staleness_step w pe s =
     (case Stat w (modelPath w (fst pe)) of
        Inl err \<Rightarrow>
          s\<lparr>result := (result s)\<lparr>Hashes := AList.delete (fst pe) (Hashes (result s))\<rparr>\<rparr>
      | Inr fi \<Rightarrow>
          (let s' = (if changed w fi (snd pe)
                     then s\<lparr>taskChan := taskChan s @
                               [\<lparr>path = modelPath w (fst pe), d = FileInfoToDirEntry fi\<rparr>]\<rparr>
                     else s)
           in s'\<lparr>knownFiles := insert (modelPath w (fst pe)) (knownFiles s')\<rparr>))"

definition staleness :: "world \<Rightarrow> state \<Rightarrow> state" where
  "staleness w s = fold (staleness_step w) (Hashes (result s)) s"

text \<open>Lines 150 to 166: the function given to \<^verbatim>\<open>WalkDir\<close>, which always returns nil.\<close>

definition walk_fn :: "world \<Rightarrow> visit \<Rightarrow> state \<Rightarrow> state" where
  "walk_fn w v s =
     (case v of
        VisitNil p err \<Rightarrow> s
      | Visit p de err \<Rightarrow>
          if DirEntry.IsDir de then s
          else if err \<noteq> None then s
          else (let ext = ToLower w (Ext w p)
                in if ext \<noteq> ''.safetensors'' \<and> ext \<noteq> ''.ckpt'' then s
                   else if p \<notin> knownFiles s
                        then s\<lparr>taskChan := taskChan s @ [\<lparr>path = p, d = de\<rparr>]\<rparr>
                        else s))"

definition scan :: "world \<Rightarrow> state \<Rightarrow> state" where
  "scan w s = fold (walk_fn w) (WalkDir w (Path w)) s"

text \<open>Lines 113 to 118: a worker goroutine sends on the entries of the tasks that succeed.\<close>

definition resultChan :: "world \<Rightarrow> task list \<Rightarrow> entry list" where
  "resultChan w ts = concat (map (\<lambda>t. case worker w t of Inl err \<Rightarrow> [] | Inr e \<Rightarrow> [e]) ts)"

text \<open>Lines 124 to 133: the collector.\<close>

definition collect_step :: "world \<Rightarrow> entry \<Rightarrow> cache \<Rightarrow> cache" where
  "collect_step w e c =
     (case Rel w (Path w) (entry.path e) of
        Inl err \<Rightarrow> c
      | Inr rel \<Rightarrow> c\<lparr>Hashes := AList.update (''checkpoint/'' @ rel) e (Hashes c)\<rparr>)"

definition collector :: "world \<Rightarrow> entry list \<Rightarrow> cache \<Rightarrow> cache" where
  "collector w es c = fold (collect_step w) es c"

text \<open>
  \<^verbatim>\<open>main\<close>, from the decoded input cache (\<open>None\<close> when no input file is given) to
  the cache that is encoded.
\<close>

text \<open>Lines 89 to 135: the decoded cache, an empty task channel and no known file.\<close>

definition init :: "cache \<Rightarrow> state" where
  "init c = \<lparr>result = c, taskChan = [], knownFiles = {}\<rparr>"

definition producers :: "world \<Rightarrow> cache \<Rightarrow> state" where
  "producers w c = scan w (staleness w (init c))"

definition main :: "world \<Rightarrow> cache option \<Rightarrow> cache" where
  "main w input =
     (let c = (case input of None \<Rightarrow> \<lparr>Hashes = [], HashesAddnet = None\<rparr> | Some c \<Rightarrow> c);
          s = producers w c
      in collector w (resultChan w (taskChan s)) (result s))"

section \<open>The encoder\<close>

text \<open>
  The encoded file as the encoder lays it out: the keys of a map in sorted order, an
  \<^verbatim>\<open>mtime\<close> through \<open>MarshalJSON\<close>, the unexported \<^verbatim>\<open>path\<close> left out, and
  \<^verbatim>\<open>hashes-addnet\<close> left out (\<^verbatim>\<open>omitempty\<close>) when the map is nil or has no entry.
\<close>

record jentry =
  mtime :: string
  sha256 :: string

record json =
  hashes :: "(string \<times> jentry) list"
  hashes_addnet :: "(string \<times> jentry) list option"

definition encode_entry :: "entry \<Rightarrow> jentry" where
  "encode_entry e = \<lparr>mtime = MarshalJSON (MTime e), sha256 = SHA256 e\<rparr>"

definition encode_map :: "(string \<times> entry) list \<Rightarrow> (string \<times> jentry) list" where
  "encode_map m = sort_key fst (map (\<lambda>ke. (fst ke, encode_entry (snd ke))) m)"

definition Encode :: "cache \<Rightarrow> json" where
  "Encode c =
     \<lparr>hashes = encode_map (Hashes c),
      hashes_addnet =
        (case HashesAddnet c of
           None \<Rightarrow> None
         | Some m \<Rightarrow> if m = [] then None else Some (encode_map m))\<rparr>"

section \<open>Derived notions used in the statements\<close>

text \<open>What one round of the staleness loop, and one call of the walk function, sends.\<close>

definition stale_task :: "world \<Rightarrow> string \<times> entry \<Rightarrow> task list" where
  "stale_task w pe =
     (case Stat w (modelPath w (fst pe)) of
        Inl err \<Rightarrow> []
      | Inr fi \<Rightarrow>
          if changed w fi (snd pe)
          then [\<lparr>path = modelPath w (fst pe), d = FileInfoToDirEntry fi\<rparr>] else [])"

definition scan_task :: "world \<Rightarrow> string set \<Rightarrow> visit \<Rightarrow> task list" where
  "scan_task w known v =
     (case v of
        VisitNil p err \<Rightarrow> []
      | Visit p de err \<Rightarrow>
          if \<not> DirEntry.IsDir de \<and> err = None \<and>
             (ToLower w (Ext w p) = ''.safetensors'' \<or> ToLower w (Ext w p) = ''.ckpt'') \<and>
             p \<notin> known
          then [\<lparr>path = p, d = de\<rparr>] else [])"

definition key_of :: "world \<Rightarrow> entry \<Rightarrow> string option" where
  "key_of w e =
     (case Rel w (Path w) (entry.path e) of
        Inl err \<Rightarrow> None
      | Inr rel \<Rightarrow> Some (''checkpoint/'' @ rel))"

text \<open>
  Two properties of the host that some statements assume of the tasks of a run: the
  relative path \<^verbatim>\<open>filepath.Rel\<close> computes leads back to the file when joined to the
  root, and a file that cannot be stat-ed cannot be opened.
\<close>

definition rel_join_law :: "world \<Rightarrow> task list \<Rightarrow> bool" where
  "rel_join_law w ts \<longleftrightarrow>
     list_all (\<lambda>t. case Rel w (Path w) (task.path t) of
                      Inl err \<Rightarrow> True
                    | Inr rel \<Rightarrow> Join w (Path w) rel = task.path t) ts"

definition stat_open_law :: "world \<Rightarrow> task list \<Rightarrow> bool" where
  "stat_open_law w ts \<longleftrightarrow>
     list_all (\<lambda>t. isl (Stat w (task.path t)) \<longrightarrow> isl (Open w (task.path t))) ts"

text \<open>
  The criterion in the words of the specification: the absolute difference between the
  time on disk and the stored time less its margin of one second exceeds two seconds.
\<close>

definition spec_rehash :: "FileInfo \<Rightarrow> entry \<Rightarrow> bool" where
  "spec_rehash fi e \<longleftrightarrow> 2 < \<bar>of_int (ModTime fi) / 10 ^ 9 - (float_val (MTime e) - 1)\<bar>"

text \<open>
  A fixed-point decimal with exactly seven fractional digits: an optional minus sign,
  digits, a point, seven digits, and nothing else.
\<close>

definition is_digit :: "char \<Rightarrow> bool" where
  "is_digit c \<longleftrightarrow> c \<in> set ''0123456789''"


section \<open>A small host for concrete runs\<close>

text \<open>
  Paths with \<^verbatim>\<open>/\<close> as separator, joined and made relative without cleaning (enough
  for the clean paths used below), ASCII lower-casing, a two-byte stand-in for SHA-256,
  a flat tree of regular files, each read in one chunk, and the conversion of a float
  out of range that \<^verbatim>\<open>amd64\<close> makes.
\<close>

definition unix_Join :: "string \<Rightarrow> string \<Rightarrow> string" where
  "unix_Join dir name = dir @ ''/'' @ name"

definition unix_Rel :: "string \<Rightarrow> string \<Rightarrow> error + string" where
  "unix_Rel base targ =
     (if take (length base + 1) targ = base @ ''/'' then Inr (drop (length base + 1) targ)
      else Inl ErrRel)"

fun ext_scan :: "string \<Rightarrow> string \<Rightarrow> string" where
  "ext_scan [] acc = []"
| "ext_scan (c # cs) acc =
     (if c = CHR ''/'' then [] else if c = CHR ''.'' then c # acc else ext_scan cs (c # acc))"

definition unix_Ext :: "string \<Rightarrow> string" where
  "unix_Ext p = ext_scan (rev p) []"

definition ascii_lower :: "char \<Rightarrow> char" where
  "ascii_lower c =
     (case map_of (zip ''ABCDEFGHIJKLMNOPQRSTUVWXYZ'' ''abcdefghijklmnopqrstuvwxyz'') c of
        None \<Rightarrow> c | Some l \<Rightarrow> l)"

definition toy_sum :: "byte list \<Rightarrow> byte list" where
  "toy_sum bs = [of_nat (length bs), fold (+) bs 0]"

definition tree_world :: "(string \<times> Time \<times> byte list) list \<Rightarrow> world" where
  "tree_world files =
     \<lparr>Path = ''models'', Join = unix_Join, Rel = unix_Rel, Ext = unix_Ext,
      ToLower = map ascii_lower,
      Stat = (\<lambda>p. case map_of files p of
                     None \<Rightarrow> Inl ENOENT
                   | Some tc \<Rightarrow> Inr \<lparr>ModTime = fst tc, IsDir = False\<rparr>),
      WalkDir = (\<lambda>root. Visit root \<lparr>IsDir = True, Info = Inr \<lparr>ModTime = 0, IsDir = True\<rparr>\<rparr> None #
                   map (\<lambda>ptc. Visit (fst ptc)
                                 \<lparr>IsDir = False,
                                  Info = Inr \<lparr>ModTime = fst (snd ptc), IsDir = False\<rparr>\<rparr> None) files),
      Open = (\<lambda>p. case map_of files p of
                     None \<Rightarrow> Inl ENOENT
                   | Some tc \<Rightarrow> Inr (if snd tc = [] then [] else [(snd tc, None)])),
      Sum256 = toy_sum,
      Int64Overflow = (\<lambda>x. - (2 ^ 63))\<rparr>"

definition w1 :: world where
  "w1 = tree_world [(''models/a.ckpt'', 100 * 10 ^ 9, [1, 2, 3])]"

definition c1 :: cache where
  "c1 = \<lparr>Hashes = [(''checkpoint/a.ckpt'', \<lparr>MTime = f64 110, SHA256 = ''00'', path = []\<rparr>)],
         HashesAddnet = None\<rparr>"

definition t1 :: task where
  "t1 = \<lparr>path = ''models/a.ckpt'',
         d = \<lparr>IsDir = False, Info = Inr \<lparr>ModTime = 100 * 10 ^ 9, IsDir = False\<rparr>\<rparr>\<rparr>"

definition fi_a :: FileInfo where
  "fi_a = \<lparr>ModTime = 100 * 10 ^ 9, IsDir = False\<rparr>"

definition e_old :: entry where
  "e_old = \<lparr>MTime = f64 50, SHA256 = ''00'', path = []\<rparr>"

definition e_late :: entry where
  "e_late = \<lparr>MTime = f64 110, SHA256 = ''00'', path = []\<rparr>"

definition e_new :: entry where
  "e_new = \<lparr>MTime = f64 101, SHA256 = ''0306'', path = ''models/a.ckpt''\<rparr>"

definition f_a :: reader where
  "f_a = [([1, 2, 3], None)]"

definition c_gone :: cache where
  "c_gone = \<lparr>Hashes = [(''checkpoint/gone.ckpt'', e_old)], HashesAddnet = None\<rparr>"

definition c_stale :: cache where
  "c_stale = \<lparr>Hashes = [(''checkpoint/a.ckpt'', e_old)], HashesAddnet = None\<rparr>"

definition c_bare :: cache where
  "c_bare = \<lparr>Hashes = [(''a.ckpt'', e_old)], HashesAddnet = None\<rparr>"

definition c_empty :: cache where
  "c_empty = \<lparr>Hashes = [], HashesAddnet = None\<rparr>"

definition w_link :: world where
  "w_link = (tree_world [])
     \<lparr>WalkDir := \<lambda>root. [Visit root \<lparr>IsDir = True, Info = Inr \<lparr>ModTime = 0, IsDir = True\<rparr>\<rparr> None,
                           Visit ''models/gone.ckpt'' \<lparr>IsDir = False, Info = Inr fi_a\<rparr> None]\<rparr>"

definition w_txt :: world where
  "w_txt = tree_world [(''models/notes.txt'', 100 * 10 ^ 9, [1, 2, 3])]"

definition c_txt :: cache where
  "c_txt = \<lparr>Hashes = [(''checkpoint/notes.txt'', \<lparr>MTime = f64 101, SHA256 = ''0306'', path = []\<rparr>)],
            HashesAddnet = None\<rparr>"

definition c_addnet_empty :: cache where
  "c_addnet_empty = \<lparr>Hashes = [], HashesAddnet = Some []\<rparr>"

definition w_ns :: world where
  "w_ns = tree_world [(''models/a.ckpt'', 1700000000123456789, [1, 2, 3])]"

definition t_ns :: task where
  "t_ns = \<lparr>path = ''models/a.ckpt'',
           d = \<lparr>IsDir = False, Info = Inr \<lparr>ModTime = 1700000000123456789, IsDir = False\<rparr>\<rparr>\<rparr>"

definition e_frac :: entry where
  "e_frac = \<lparr>MTime = \<lparr>signbit = False, mag = 1 / 256\<rparr>, SHA256 = ''ab'', path = []\<rparr>"

definition c_both :: cache where
  "c_both = \<lparr>Hashes = [(''checkpoint/a.ckpt'', e_late)],
             HashesAddnet = Some [(''lora/x.safetensors'', e_frac)]\<rparr>"

section \<open>Reading the encoded cache back\<close>

text \<open>
  The decoder on numbers in plain decimal notation, which are those the encoder writes: an
  optional minus sign, digits, a point and digits; the unexported \<^verbatim>\<open>path\<close> of a decoded
  entry is empty.
\<close>

definition digit_val :: "char \<Rightarrow> nat" where
  "digit_val c = of_char c - 48"

definition ParseUint :: "string \<Rightarrow> nat" where
  "ParseUint s = foldl (\<lambda>a c. 10 * a + digit_val c) 0 s"

text \<open>The number a decimal text denotes: whether it has a minus sign, and its magnitude.\<close>

definition decimal_neg :: "string \<Rightarrow> bool" where
  "decimal_neg s \<longleftrightarrow> take 1 s = ''-''"

definition decimal_mag :: "string \<Rightarrow> rat" where
  "decimal_mag s =
     (let u = (if decimal_neg s then drop 1 s else s);
          ip = takeWhile (\<lambda>c. c \<noteq> CHR ''.'') u;
          fp = drop (length ip + 1) u
      in of_nat (ParseUint ip) + of_nat (ParseUint fp) / 10 ^ length fp)"

text \<open>\<^verbatim>\<open>strconv.ParseFloat\<close>: the float nearest to the number, with the sign of the text.\<close>

definition ParseFloat :: "string \<Rightarrow> float64" where
  "ParseFloat s = \<lparr>signbit = decimal_neg s, mag = rnd (decimal_mag s)\<rparr>"

definition decode_entry :: "jentry \<Rightarrow> entry" where
  "decode_entry je = \<lparr>MTime = ParseFloat (mtime je), SHA256 = sha256 je, path = []\<rparr>"

definition decode_map :: "(string \<times> jentry) list \<Rightarrow> (string \<times> entry) list" where
  "decode_map jm = fold (\<lambda>kj m. AList.update (fst kj) (decode_entry (snd kj)) m) jm []"

definition Decode :: "json \<Rightarrow> cache" where
  "Decode j = \<lparr>Hashes = decode_map (hashes j), HashesAddnet = map_option decode_map (hashes_addnet j)\<rparr>"

text \<open>
  A well-formed cache: the keys of a map are distinct, and every stored time is a value
  of the type \<^verbatim>\<open>float64\<close>.
\<close>

definition distinct_keys :: "cache \<Rightarrow> bool" where
  "distinct_keys c \<longleftrightarrow>
     distinct (map fst (Hashes c)) \<and>
     (case HashesAddnet c of None \<Rightarrow> True | Some m \<Rightarrow> distinct (map fst m))"

definition float_entries :: "cache \<Rightarrow> bool" where
  "float_entries c \<longleftrightarrow>
     list_all (\<lambda>ke. float64_ok (MTime (snd ke))) (Hashes c) \<and>
     (case HashesAddnet c of None \<Rightarrow> True | Some m \<Rightarrow> list_all (\<lambda>ke. float64_ok (MTime (snd ke))) m)"

text \<open>
  Two lists that are the same map, enumerated in two orders; two caches that are the same
  maps.
\<close>

definition same_map :: "(string \<times> entry) list \<Rightarrow> (string \<times> entry) list \<Rightarrow> bool" where
  "same_map a b \<longleftrightarrow> distinct (map fst a) \<and> distinct (map fst b) \<and> set a = set b"

definition same_cache :: "cache \<Rightarrow> cache \<Rightarrow> bool" where
  "same_cache a b \<longleftrightarrow>
     same_map (Hashes a) (Hashes b) \<and>
     (case HashesAddnet a of
        None \<Rightarrow> HashesAddnet b = None
      | Some m \<Rightarrow> (case HashesAddnet b of None \<Rightarrow> False | Some m' \<Rightarrow> same_map m m'))"

text \<open>
  Conditions on a run under which a second run changes nothing: no stored time of the
  main map is negative, the key of every entry judged changed is the key the collector
  computes for its file, every task succeeds and is merged, and the entry of a task
  reports, in nanoseconds, the modification time that \<^verbatim>\<open>Stat\<close> reports.
\<close>

definition not_negative :: "cache \<Rightarrow> bool" where
  "not_negative c \<longleftrightarrow> list_all (\<lambda>ke. 0 \<le> float_val (MTime (snd ke))) (Hashes c)"

definition canonical_key :: "world \<Rightarrow> string \<Rightarrow> bool" where
  "canonical_key w p \<longleftrightarrow>
     take (length ''checkpoint/'') p = ''checkpoint/'' \<and>
     Rel w (Path w) (modelPath w p) = Inr (drop (length ''checkpoint/'') p)"

definition changed_keys_canonical :: "world \<Rightarrow> cache \<Rightarrow> bool" where
  "changed_keys_canonical w c \<longleftrightarrow>
     list_all (\<lambda>pe. case Stat w (modelPath w (fst pe)) of
                       Inl err \<Rightarrow> True
                     | Inr fi \<Rightarrow> changed w fi (snd pe) \<longrightarrow> canonical_key w (fst pe)) (Hashes c)"

definition all_merged :: "world \<Rightarrow> task list \<Rightarrow> bool" where
  "all_merged w ts \<longleftrightarrow>
     list_all (\<lambda>t. \<not> isl (worker w t) \<and> \<not> isl (Rel w (Path w) (task.path t))) ts"

definition task_stat_law :: "world \<Rightarrow> task list \<Rightarrow> bool" where
  "task_stat_law w ts \<longleftrightarrow>
     list_all (\<lambda>t. case Stat w (task.path t) of
                      Inl err \<Rightarrow> False
                    | Inr fi \<Rightarrow> (case Info (d t) of
                                   Inl err \<Rightarrow> True
                                 | Inr info \<Rightarrow> UnixNano (ModTime info) = ModTime fi)) ts"

section \<open>Rounding\<close>

lemma rhe_lower: "\<lfloor>x\<rfloor> \<le> round_half_even x"
  by (simp add: round_half_even_def Let_def)

lemma rhe_of_int: "round_half_even (of_int k) = k"
  by (simp add: round_half_even_def)

lemma rhe_cases:
  obtains (down) "round_half_even x = \<lfloor>x\<rfloor>" "x - of_int \<lfloor>x\<rfloor> \<le> 1 / 2"
  | (up) "round_half_even x = \<lfloor>x\<rfloor> + 1" "1 / 2 \<le> x - of_int \<lfloor>x\<rfloor>"
proof (cases "x - of_int \<lfloor>x\<rfloor> < 1 / 2")
  case True
  then show ?thesis using down by (simp add: round_half_even_def Let_def)
next
  case False
  show ?thesis
  proof (cases "1 / 2 < x - of_int \<lfloor>x\<rfloor>")
    case True
    then show ?thesis using up False by (simp add: round_half_even_def Let_def)
  next
    case h: False
    with False have eq: "x - of_int \<lfloor>x\<rfloor> = 1 / 2" by simp
    show ?thesis
    proof (cases "even \<lfloor>x\<rfloor>")
      case True
      then show ?thesis using down eq by (simp add: round_half_even_def Let_def)
    next
      case odd: False
      then show ?thesis using up eq by (simp add: round_half_even_def Let_def)
    qed
  qed
qed

lemma rhe_nearest: "\<bar>of_int (round_half_even x) - x\<bar> \<le> \<bar>of_int n - x\<bar>"
proof -
  have f: "of_int \<lfloor>x\<rfloor> \<le> x" "x < of_int \<lfloor>x\<rfloor> + 1" by linarith+
  have n: "(of_int n :: rat) \<le> of_int \<lfloor>x\<rfloor> \<or> of_int \<lfloor>x\<rfloor> + 1 \<le> (of_int n :: rat)"
  proof (cases "n \<le> \<lfloor>x\<rfloor>")
    case True
    then show ?thesis by simp
  next
    case False
    then have "\<lfloor>x\<rfloor> + 1 \<le> n" by simp
    then have "(of_int (\<lfloor>x\<rfloor> + 1) :: rat) \<le> of_int n" by (simp only: of_int_le_iff)
    then show ?thesis by simp
  qed
  show ?thesis
  proof (cases x rule: rhe_cases)
    case down
    show ?thesis unfolding down(1) using f n down(2) by linarith
  next
    case up
    have "(of_int (\<lfloor>x\<rfloor> + 1) :: rat) = of_int \<lfloor>x\<rfloor> + 1" by simp
    then show ?thesis unfolding up(1) using f n up(2) by linarith
  qed
qed

lemma rhe_error: "\<bar>of_int (round_half_even x) - x\<bar> \<le> 1 / 2"
proof (cases x rule: rhe_cases)
  case down
  have "of_int \<lfloor>x\<rfloor> \<le> x" by linarith
  then show ?thesis unfolding down(1) using down(2) by linarith
next
  case up
  have "x < of_int \<lfloor>x\<rfloor> + 1" by linarith
  moreover have "(of_int (\<lfloor>x\<rfloor> + 1) :: rat) = of_int \<lfloor>x\<rfloor> + 1" by simp
  ultimately show ?thesis unfolding up(1) using up(2) by linarith
qed

lemma rhe_unique:
  assumes "\<bar>x - of_int n\<bar> < 1 / 2"
  shows "round_half_even x = n"
proof -
  have "\<bar>(of_int (round_half_even x) :: rat) - of_int n\<bar> < 1"
    using rhe_error[of x] assms by linarith
  then have "\<bar>(of_int (round_half_even x - n) :: rat)\<bar> < 1" by simp
  then have "\<bar>round_half_even x - n\<bar> < 1"
    by (metis (no_types) of_int_abs of_int_less_1_iff)
  then show ?thesis by linarith
qed

lemma rhe_nonneg: "0 \<le> x \<Longrightarrow> 0 \<le> round_half_even x"
  using rhe_lower[of x] zero_le_floor[of x] by linarith

subsection \<open>The exponent\<close>

lemma pow2_pos: "0 < (2::rat) powi e"
  by simp

lemma pow2_mono: "a \<le> b \<Longrightarrow> (2::rat) powi a \<le> 2 powi b"
  by (rule power_int_increasing) simp_all

lemma pow2_strict_mono: "a < b \<Longrightarrow> (2::rat) powi a < 2 powi b"
  by (rule power_int_strict_increasing) simp_all

lemma pow2_add: "(2::rat) powi (a + b) = 2 powi a * 2 powi b"
  by (rule power_int_add) simp

lemma pow2_diff: "(2::rat) powi (a - b) = 2 powi a / 2 powi b"
  by (rule power_int_diff) simp

lemma pow2_nat: "0 \<le> a \<Longrightarrow> (2::rat) powi a = of_int (2 ^ nat a)"
  by (simp add: power_int_def)

lemma bitlen_rat:
  assumes "0 < p"
  shows "(2::rat) powi (bitlen p - 1) \<le> of_int p" and "of_int p < (2::rat) powi (bitlen p)"
proof -
  from bitlen_bounds[OF assms] have b: "2 ^ nat (bitlen p - 1) \<le> p" "p < 2 ^ nat (bitlen p)" by simp_all
  have ge: "1 \<le> bitlen p" using assms bitlen_eq_zero_iff[of p] bitlen_nonneg[of p] by linarith
  have "(2::rat) powi (bitlen p - 1) = of_int (2 ^ nat (bitlen p - 1))"
    using ge by (intro pow2_nat) simp
  also have "\<dots> \<le> of_int p" using b(1) by (simp only: of_int_le_iff)
  finally show "(2::rat) powi (bitlen p - 1) \<le> of_int p" .
  have "(of_int p :: rat) < of_int (2 ^ nat (bitlen p))" using b(2) by (simp only: of_int_less_iff)
  also have "\<dots> = 2 powi (bitlen p)" using ge by (subst pow2_nat) simp_all
  finally show "of_int p < (2::rat) powi (bitlen p)" .
qed

lemma expo_bounds:
  assumes "0 < x"
  shows "2 powi (expo x) \<le> x" and "x < 2 powi (expo x + 1)"
proof -
  obtain p q where pq: "quotient_of x = (p, q)" by (cases "quotient_of x")
  have q: "0 < q" using pq by (rule quotient_of_denom_pos)
  have x: "x = of_int p / of_int q" using pq by (rule quotient_of_div)
  have p: "0 < p" using assms q unfolding x by (simp add: zero_less_divide_iff)
  define a where "a = bitlen p"
  define b where "b = bitlen q"
  note P = bitlen_rat[OF p, folded a_def]
  note Q = bitlen_rat[OF q, folded b_def]
  have qpos: "0 < (of_int q :: rat)" using q by simp
  have "2 powi (a - b - 1) = (2::rat) powi (a - 1) / 2 powi b"
    using pow2_diff[of "a - 1" b] by (simp add: algebra_simps)
  also have "\<dots> \<le> of_int p / 2 powi b"
    using P(1) by (simp add: divide_right_mono)
  also have "\<dots> < of_int p / of_int q"
    using Q(2) p qpos by (intro divide_strict_left_mono) (simp_all add: mult_pos_pos)
  finally have lo: "2 powi (a - b - 1) < x" unfolding x .
  have "x < 2 powi a / of_int q"
    unfolding x using P(2) qpos by (simp add: divide_strict_right_mono)
  also have "\<dots> \<le> 2 powi a / 2 powi (b - 1)"
    using Q(1) mult_pos_pos[OF qpos pow2_pos[of "b - 1"]] by (intro divide_left_mono) simp_all
  also have "\<dots> = 2 powi (a - b + 1)"
    using pow2_diff[of a "b - 1"] by (simp add: algebra_simps)
  finally have hi: "x < 2 powi (a - b + 1)" .
  have e: "expo x = (if 2 powi (a - b) \<le> x then a - b else a - b - 1)"
    unfolding expo_def Let_def pq a_def b_def by simp
  show "2 powi (expo x) \<le> x"
    using lo unfolding e by auto
  show "x < 2 powi (expo x + 1)"
    using hi unfolding e by (auto simp: not_le)
qed

lemma expo_unique:
  assumes "2 powi e \<le> x" "x < 2 powi (e + 1)"
  shows "expo x = e"
proof -
  have x: "0 < x" using assms(1) pow2_pos[of e] by linarith
  note b = expo_bounds[OF x]
  have "\<not> expo x < e"
  proof
    assume "expo x < e"
    then have "expo x + 1 \<le> e" by simp
    from pow2_mono[OF this] b(2) assms(1) show False by linarith
  qed
  moreover have "\<not> e < expo x"
  proof
    assume "e < expo x"
    then have "e + 1 \<le> expo x" by simp
    from pow2_mono[OF this] b(1) assms(2) show False by linarith
  qed
  ultimately show ?thesis by linarith
qed

lemma expo_mono:
  assumes "0 < x" "x \<le> y"
  shows "expo x \<le> expo y"
proof (rule ccontr)
  assume "\<not> expo x \<le> expo y"
  then have "expo y + 1 \<le> expo x" by simp
  from pow2_mono[OF this] expo_bounds(1)[OF assms(1)] expo_bounds(2)[of y] assms
  show False by linarith
qed

subsection \<open>Rounding to the grid\<close>

lemma ulp_pos: "0 < ulp x"
  by (simp add: ulp_def)

lemma rnd_grid: "rnd x = of_int (round_half_even (x / ulp x)) * ulp x"
  by (simp add: rnd_def)


lemma rnd_nearest_grid: "\<bar>rnd x - x\<bar> \<le> \<bar>of_int n * ulp x - x\<bar>"
proof -
  have "\<bar>of_int (round_half_even (x / ulp x)) - x / ulp x\<bar> * ulp x
          \<le> \<bar>of_int n - x / ulp x\<bar> * ulp x"
    using rhe_nearest[of "x / ulp x" n] ulp_pos[of x] by (intro mult_right_mono) simp_all
  moreover have "\<bar>of_int k - x / ulp x\<bar> * ulp x = \<bar>of_int k * ulp x - x\<bar>" for k
  proof -
    have "\<bar>of_int k - x / ulp x\<bar> * ulp x = \<bar>(of_int k - x / ulp x) * ulp x\<bar>"
      using ulp_pos[of x] by (simp add: abs_mult)
    also have "(of_int k - x / ulp x) * ulp x = of_int k * ulp x - x"
      using ulp_pos[of x] by (simp add: field_simps)
    finally show ?thesis .
  qed
  ultimately show ?thesis by (simp add: rnd_def)
qed

lemma rnd_zero: "rnd 0 = 0"
  by (simp add: rnd_def rhe_of_int[of 0, simplified])


lemma rnd_on_grid: "x = of_int n * ulp x \<Longrightarrow> rnd x = x"
proof -
  assume x: "x = of_int n * ulp x"
  then have "x / ulp x = of_int n" using ulp_pos[of x] by (simp add: field_simps)
  then show ?thesis unfolding rnd_def using x by (simp add: rhe_of_int)
qed


subsection \<open>The nearest float\<close>

lemma expo_le:
  assumes "0 < x" "x \<le> 2 powi k"
  shows "expo x \<le> k"
proof (rule ccontr)
  assume "\<not> expo x \<le> k"
  then have "k + 1 \<le> expo x" by simp
  from pow2_mono[OF this] expo_bounds(1)[OF assms(1)] assms(2) pow2_strict_mono[of k "k + 1"]
  show False by simp
qed

lemma expo_ge:
  assumes "2 powi k \<le> x"
  shows "k \<le> expo x"
proof (rule ccontr)
  have x: "0 < x" using assms pow2_pos[of k] by linarith
  assume "\<not> k \<le> expo x"
  then have "expo x + 1 \<le> k" by simp
  from pow2_mono[OF this] expo_bounds(2)[OF x] assms show False by linarith
qed

lemma pow2_int: "0 \<le> a \<Longrightarrow> \<exists>n::int. (2::rat) powi a = of_int n \<and> 0 < n"
  by (rule exI[of _ "2 ^ nat a"]) (simp add: pow2_nat)

lemma grid_coarser:
  assumes "a \<le> b"
  shows "\<exists>n'. of_int n * (2::rat) powi b = of_int n' * 2 powi a"
proof -
  from pow2_int[of "b - a"] assms obtain j :: int where j: "(2::rat) powi (b - a) = of_int j" by auto
  have "(2::rat) powi b = 2 powi (b - a) * 2 powi a"
    using pow2_add[of "b - a" a] by simp
  then have "of_int n * (2::rat) powi b = of_int (n * j) * 2 powi a"
    unfolding j by simp
  then show ?thesis by blast
qed

text \<open>Rounding yields the float nearest to the number: no fixed point of rounding is nearer.\<close>

lemma rnd_nearest:
  assumes x: "0 \<le> x" and y: "0 \<le> y" and fy: "rnd y = y"
  shows "\<bar>rnd x - x\<bar> \<le> \<bar>y - x\<bar>"
proof (cases "x = 0")
  case True
  then show ?thesis by (simp add: rnd_zero)
next
  case False
  then have xp: "0 < x" using x by simp
  define ax where "ax = max (expo x) (- 1022) - 52"
  define ay where "ay = max (expo y) (- 1022) - 52"
  have ux: "ulp x = 2 powi ax" by (simp add: ulp_def ax_def)
  have uy: "ulp y = 2 powi ay" by (simp add: ulp_def ay_def)
  obtain ny where ny: "y = of_int ny * 2 powi ay"
    using fy unfolding rnd_def uy by metis
  show ?thesis
  proof (cases "ax \<le> ay")
    case True
    from grid_coarser[OF True, of ny] obtain n' where "y = of_int n' * ulp x"
      unfolding ny[symmetric] ux by blast
    then show ?thesis using rnd_nearest_grid[of x n'] by simp
  next
    case False
    then have lt: "max (expo y) (- 1022) < max (expo x) (- 1022)" unfolding ax_def ay_def by linarith
    then have ex: "- 1022 < expo x" "expo y < expo x" by (auto simp: max_def split: if_splits)
    have axe: "ax = expo x - 52" using ex(1) by (simp add: ax_def)
    have ylt: "y \<le> 2 powi (expo x)"
    proof (cases "y = 0")
      case True
      then show ?thesis using pow2_pos[of "expo x"] by simp
    next
      case False
      then have "0 < y" using y by simp
      from expo_bounds(2)[OF this] pow2_mono[of "expo y + 1" "expo x"] ex(2)
      show ?thesis by simp
    qed
    from grid_coarser[of ax "expo x" 1] obtain n' where n': "(2::rat) powi (expo x) = of_int n' * ulp x"
      unfolding ux axe by auto
    have "\<bar>rnd x - x\<bar> \<le> \<bar>2 powi (expo x) - x\<bar>"
      using rnd_nearest_grid[of x n'] unfolding n'[symmetric] .
    also have "\<dots> = x - 2 powi (expo x)" using expo_bounds(1)[OF xp] by simp
    also have "\<dots> \<le> \<bar>y - x\<bar>" using ylt by linarith
    finally show ?thesis .
  qed
qed

text \<open>A float is a dyadic rational.\<close>

lemma pow2_dyadic: "\<exists>(n::int) k::nat. (2::rat) powi a = of_int n / 2 ^ k"
proof (cases "0 \<le> a")
  case True
  then have "(2::rat) powi a = of_int (2 ^ nat a) / 2 ^ 0" by (simp add: pow2_nat)
  then show ?thesis by blast
next
  case False
  then have "(2::rat) powi a = of_int 1 / 2 ^ nat (- a)"
    by (simp add: power_int_def field_simps)
  then show ?thesis by blast
qed

lemma rnd_dyadic: "\<exists>(n::int) k::nat. rnd x = of_int n / 2 ^ k"
proof -
  obtain n k where "ulp x = of_int n / 2 ^ k"
    unfolding ulp_def using pow2_dyadic by blast
  then have "rnd x = of_int (round_half_even (x / ulp x) * n) / 2 ^ k"
    unfolding rnd_def by simp
  then show ?thesis by blast
qed

lemma five_dvd_double: "(5::int) dvd 2 * m \<Longrightarrow> 5 dvd m"
proof -
  assume "(5::int) dvd 2 * m"
  then obtain c where "2 * m = 5 * c" by (auto simp: dvd_def)
  then have "m = 5 * (m - 2 * c)" by simp
  then show ?thesis by (metis dvd_triv_left)
qed

lemma five_not_dvd_pow2: "\<not> (5::int) dvd 2 ^ k"
proof (induction k)
  case 0
  then show ?case by simp
next
  case (Suc k)
  then show ?case using five_dvd_double[of "2 ^ k"] by auto
qed

lemma floats_not_decimal_step:
  assumes "rnd a = a" "rnd b = b"
  shows "a - b \<noteq> 1 / 10 ^ 7"
proof
  assume d: "a - b = 1 / 10 ^ 7"
  obtain n1 k1 where a: "a = of_int n1 / 2 ^ k1" using rnd_dyadic[of a] assms(1) by metis
  obtain n2 k2 where b: "b = of_int n2 / 2 ^ k2" using rnd_dyadic[of b] assms(2) by metis
  have A: "a * 2 ^ k1 = of_int n1" unfolding a by simp
  have B: "b * 2 ^ k2 = of_int n2" unfolding b by simp
  have "(a - b) * (2 ^ k1 * 2 ^ k2) = (a * 2 ^ k1) * 2 ^ k2 - (b * 2 ^ k2) * 2 ^ k1"
    by (simp add: algebra_simps)
  also have "\<dots> = of_int n1 * 2 ^ k2 - of_int n2 * 2 ^ k1" unfolding A B ..
  finally have "(1 / 10 ^ 7) * (2 ^ k1 * 2 ^ k2) = (of_int n1 * 2 ^ k2 - of_int n2 * 2 ^ k1 :: rat)"
    unfolding d .
  then have "(2 ^ k1 * 2 ^ k2 :: rat) = 10 ^ 7 * (of_int n1 * 2 ^ k2 - of_int n2 * 2 ^ k1)"
    by simp
  then have "(of_int (2 ^ (k1 + k2)) :: rat) = of_int (10 ^ 7 * (n1 * 2 ^ k2 - n2 * 2 ^ k1))"
    by (simp add: power_add)
  then have "(2::int) ^ (k1 + k2) = 10 ^ 7 * (n1 * 2 ^ k2 - n2 * 2 ^ k1)"
    by (simp only: of_int_eq_iff)
  then have "(2::int) ^ (k1 + k2) = 5 * (2000000 * (n1 * 2 ^ k2 - n2 * 2 ^ k1))" by simp
  then have "(5::int) dvd 2 ^ (k1 + k2)" by (metis dvd_triv_left)
  then show False using five_not_dvd_pow2 by blast
qed

text \<open>
  The floats: an integer of at most 53 bits scaled by a power of two, the exponent
  not below that of the smallest subnormal.
\<close>

lemma rhe_le: "z \<le> of_int N \<Longrightarrow> round_half_even z \<le> N"
proof -
  assume "z \<le> of_int N"
  then have "(of_int (round_half_even z) :: rat) \<le> of_int N"
    using rhe_nearest[of z N] by linarith
  then show ?thesis by (simp only: of_int_le_iff)
qed

lemma float_fixed:
  assumes n: "0 \<le> n" "n \<le> 2 ^ 53" and a: "- 1074 \<le> a"
  shows "rnd (of_int n * 2 powi a) = of_int n * 2 powi a"
proof (cases "n = 0")
  case True
  then show ?thesis by (simp add: rnd_zero)
next
  case False
  let ?y = "of_int n * (2::rat) powi a"
  have n1: "(1::rat) \<le> of_int n" using False n(1) by simp
  have yp: "0 < ?y" using n1 by simp
  have "(of_int n :: rat) \<le> of_int (2 ^ 53)" using n(2) by (simp only: of_int_le_iff)
  then have "(of_int n :: rat) \<le> 2 powi 53" by simp
  then have "?y \<le> 2 powi 53 * 2 powi a" by (intro mult_right_mono) simp_all
  then have yle: "?y \<le> 2 powi (a + 53)" using pow2_add[of 53 a] by (simp add: add.commute)
  have e53: "expo ?y \<le> a + 53" using expo_le[OF yp yle] .
  show ?thesis
  proof (cases "expo ?y \<le> a + 52")
    case True
    then have "max (expo ?y) (- 1022) - 52 \<le> a" using a by simp
    from grid_coarser[OF this, of n] obtain n' where "?y = of_int n' * ulp ?y"
      unfolding ulp_def by blast
    then show ?thesis by (rule rnd_on_grid)
  next
    case False
    then have e: "expo ?y = a + 53" using e53 by simp
    have y: "?y = 2 powi (a + 53)" using expo_bounds(1)[OF yp] yle unfolding e by simp
    have "max (a + 53) (- 1022) - 52 = a + 1" using a by simp
    then have u: "ulp ?y = 2 powi (a + 1)" unfolding ulp_def e by (simp only:)
    have h: "(2::rat) powi (a + 53) = 2 powi 52 * 2 powi (a + 1)"
      using pow2_add[of 52 "a + 1"] by (simp add: algebra_simps)
    have "?y = of_int (2 ^ 52) * ulp ?y" unfolding u using y h by simp
    then show ?thesis by (rule rnd_on_grid)
  qed
qed

lemma rnd_of_int:
  assumes "0 \<le> k" "k \<le> 2 ^ 53"
  shows "rnd (of_int k) = of_int k"
  using float_fixed[OF assms, of 0] by simp

lemma rnd_numeral: "numeral n \<le> (2::int) ^ 53 \<Longrightarrow> rnd (numeral n) = numeral n"
  using rnd_of_int[of "numeral n"] by simp

lemma rnd_one: "rnd 1 = 1"
  using rnd_of_int[of 1] by simp

lemma rnd_idem:
  assumes "0 \<le> x"
  shows "rnd (rnd x) = rnd x"
proof (cases "x = 0")
  case True
  then show ?thesis by (simp add: rnd_zero)
next
  case False
  then have xp: "0 < x" using assms by simp
  define a where "a = max (expo x) (- 1022) - 52"
  have u: "ulp x = 2 powi a" by (simp add: ulp_def a_def)
  have a: "- 1074 \<le> a" by (simp add: a_def)
  have "expo x + 1 \<le> a + 53" by (simp add: a_def)
  then have "x < 2 powi (a + 53)"
    using expo_bounds(2)[OF xp] pow2_mono[of "expo x + 1" "a + 53"] by linarith
  also have "\<dots> = 2 powi 53 * 2 powi a" using pow2_add[of 53 a] by (simp add: add.commute)
  finally have "x / ulp x \<le> 2 powi 53" unfolding u by (simp add: field_simps)
  then have "x / ulp x \<le> of_int (2 ^ 53)" by simp
  then have le: "round_half_even (x / ulp x) \<le> 2 ^ 53" by (rule rhe_le)
  have ge: "0 \<le> round_half_even (x / ulp x)"
    using xp ulp_pos[of x] by (intro rhe_nonneg) simp
  have r: "rnd x = of_int (round_half_even (x / ulp x)) * 2 powi a"
    by (simp add: rnd_def u)
  show ?thesis
    unfolding r using float_fixed[OF ge le a] .
qed



subsection \<open>Seven decimals and back\<close>

lemma scaled_error:
  "\<bar>of_int (round_half_even (x * 10 ^ 7)) / 10 ^ 7 - x\<bar> \<le> 1 / (2 * 10 ^ 7)"
proof -
  have "\<bar>of_int (round_half_even (x * 10 ^ 7)) - x * 10 ^ 7\<bar> / 10 ^ 7 \<le> (1 / 2) / 10 ^ 7"
    using rhe_error[of "x * 10 ^ 7"] by (intro divide_right_mono) simp_all
  moreover have "\<bar>of_int (round_half_even (x * 10 ^ 7)) - x * 10 ^ 7\<bar> / 10 ^ 7
                   = \<bar>of_int (round_half_even (x * 10 ^ 7)) / 10 ^ 7 - x\<bar>"
  proof -
    have "\<bar>of_int (round_half_even (x * 10 ^ 7)) - x * 10 ^ 7\<bar> / 10 ^ 7
            = \<bar>(of_int (round_half_even (x * 10 ^ 7)) - x * 10 ^ 7) / 10 ^ 7\<bar>"
      by simp
    also have "(of_int (round_half_even (x * 10 ^ 7)) - x * 10 ^ 7) / 10 ^ 7
                 = of_int (round_half_even (x * 10 ^ 7)) / 10 ^ 7 - x"
      by (simp add: field_simps)
    finally show ?thesis .
  qed
  ultimately show ?thesis by simp
qed

lemma seven_decimals_roundtrip:
  assumes x: "0 \<le> x" and fx: "rnd x = x"
  shows "round_half_even (rnd (of_int (round_half_even (x * 10 ^ 7)) / 10 ^ 7) * 10 ^ 7)
           = round_half_even (x * 10 ^ 7)"
proof -
  define D where "D = round_half_even (x * 10 ^ 7)"
  define d :: rat where "d = of_int D / 10 ^ 7"
  define m where "m = rnd d"
  have D0: "0 \<le> D" unfolding D_def using x by (intro rhe_nonneg) simp
  have d0: "0 \<le> d" unfolding d_def using D0 by simp
  have xd: "\<bar>d - x\<bar> \<le> 1 / (2 * 10 ^ 7)" unfolding d_def D_def by (rule scaled_error)
  have near: "\<bar>m - d\<bar> \<le> \<bar>x - d\<bar>" unfolding m_def by (rule rnd_nearest[OF d0 x fx])
  have fm: "rnd m = m" unfolding m_def by (rule rnd_idem[OF d0])
  have scale: "m * 10 ^ 7 - of_int D = (m - d) * 10 ^ 7" unfolding d_def by (simp add: field_simps)
  show ?thesis
    unfolding D_def[symmetric] d_def[symmetric] m_def[symmetric]
  proof (cases "\<bar>m - d\<bar> < 1 / (2 * 10 ^ 7)")
    case True
    then have lt: "\<bar>m - d\<bar> * 10 ^ 7 < 1 / 2" by simp
    have "\<bar>(m - d) * 10 ^ 7\<bar> = \<bar>m - d\<bar> * \<bar>10 ^ 7 :: rat\<bar>" by (rule abs_mult)
    also have "\<bar>10 ^ 7 :: rat\<bar> = 10 ^ 7" by simp
    finally have "\<bar>(m - d) * 10 ^ 7\<bar> < 1 / 2" using lt by (simp only:)
    then have "\<bar>m * 10 ^ 7 - of_int D\<bar> < 1 / 2" unfolding scale .
    then show "round_half_even (m * 10 ^ 7) = D" by (rule rhe_unique)
  next
    case False
    with near xd have eq: "\<bar>m - d\<bar> = 1 / (2 * 10 ^ 7)" "\<bar>x - d\<bar> = 1 / (2 * 10 ^ 7)"
      by linarith+
    have "m = x"
    proof (rule ccontr)
      assume "m \<noteq> x"
      with eq have "m - x = 1 / 10 ^ 7 \<or> x - m = 1 / 10 ^ 7"
        by (auto simp: abs_if split: if_splits)
      with floats_not_decimal_step[OF fm fx] floats_not_decimal_step[OF fx fm]
      show False by blast
    qed
    then show "round_half_even (m * 10 ^ 7) = D" unfolding D_def by simp
  qed
qed

lemma seven_decimals_close:
  assumes x: "0 \<le> x" and fx: "rnd x = x"
  shows "\<bar>rnd (of_int (round_half_even (x * 10 ^ 7)) / 10 ^ 7) - x\<bar> \<le> 1 / 10 ^ 7"
proof -
  define d :: rat where "d = of_int (round_half_even (x * 10 ^ 7)) / 10 ^ 7"
  have d0: "0 \<le> d" unfolding d_def using x rhe_nonneg[of "x * 10 ^ 7"] by simp
  have xd: "\<bar>d - x\<bar> \<le> 1 / (2 * 10 ^ 7)" unfolding d_def by (rule scaled_error)
  have near: "\<bar>rnd d - d\<bar> \<le> \<bar>x - d\<bar>" by (rule rnd_nearest[OF d0 x fx])
  have "\<bar>rnd d - x\<bar> \<le> 2 * (1 / (2 * 10 ^ 7))" using xd near by linarith
  then show ?thesis unfolding d_def[symmetric] by simp
qed

section \<open>Evaluation\<close>

lemmas eval_defs = producers_def staleness_def scan_def staleness_step_def walk_fn_def
  modelPath_def TrimPrefix_def changed_def Sub_def Unix_def Second_def minDuration_def maxDuration_def
  int64_def trunc_def wrap64_def unixToInternal_def f64_def fdiv_def fadd_def float_val_def
  rnd_numeral rnd_one rnd_zero
  FileInfoToDirEntry_def tree_world_def unix_Join_def unix_Rel_def unix_Ext_def ascii_lower_def
  toy_sum_def main_def collector_def collect_step_def resultChan_def worker_def Write_def New_def Sum_def
  UnixNano_def Sprintf_x_def hex_byte_def hexdigit_def Let_def init_def

lemmas eval_data = f_a_def w1_def c1_def t1_def fi_a_def e_old_def e_new_def c_gone_def c_stale_def
  c_bare_def c_empty_def w_link_def w_txt_def c_txt_def c_addnet_empty_def
  e_late_def e_frac_def c_both_def w_ns_def t_ns_def
  rel_join_law_def stat_open_law_def spec_rehash_def Encode_def

lemmas eval_laws = distinct_keys_def float_entries_def float64_ok_def not_negative_def
  same_cache_def same_map_def canonical_key_def changed_keys_canonical_def
  all_merged_def task_stat_law_def

section \<open>Formatting\<close>

lemma digit_char_is_digit: "is_digit (digit_char n)"
proof -
  have "n mod 10 < length ''0123456789''" by simp
  then have "''0123456789'' ! (n mod 10) \<in> set ''0123456789''" by (rule nth_mem)
  then show ?thesis
    unfolding digit_char_def is_digit_def .
qed

lemma decimal_digits: "list_all is_digit (decimal n)"
proof (induction n rule: decimal.induct)
  case (1 n)
  then show ?case
    by (subst decimal.simps) (simp add: digit_char_is_digit)
qed

lemma decimal_nonempty: "decimal n \<noteq> []"
  by (subst decimal.simps) simp

lemma decimal_length: "0 < k \<Longrightarrow> n < 10 ^ k \<Longrightarrow> length (decimal n) \<le> k"
proof (induction n arbitrary: k rule: decimal.induct)
  case (1 n)
  show ?case
  proof (cases "n < 10")
    case True
    then show ?thesis using "1.prems" by (subst decimal.simps) simp
  next
    case False
    then obtain j where k: "k = Suc j" and j: "0 < j"
      using "1.prems" by (cases k; cases "k - 1") auto
    have "n div 10 < 10 ^ j" using "1.prems"(2) k by (simp add: less_mult_imp_div_less mult.commute)
    then have "length (decimal (n div 10)) \<le> j" using "1.IH"[OF False j] by simp
    then show ?thesis using False k by (subst decimal.simps) simp
  qed
qed

lemma frac7_length: "n < 10 ^ 7 \<Longrightarrow> length (frac7 n) = 7"
  using decimal_length[of 7 n] by (simp add: frac7_def)




lemma hexdigit_lower: "hexdigit n \<in> set ''0123456789abcdef''"
proof -
  have "n mod 16 < length ''0123456789abcdef''" by simp
  then show ?thesis unfolding hexdigit_def by (rule nth_mem)
qed

lemma Sprintf_x_lower: "set (Sprintf_x bs) \<subseteq> set ''0123456789abcdef''"
  unfolding Sprintf_x_def hex_byte_def using hexdigit_lower by auto

lemma Sprintf_x_length: "length (Sprintf_x bs) = 2 * length bs"
  unfolding Sprintf_x_def hex_byte_def by (induction bs) auto

section \<open>What the loops compute\<close>

lemma step_tasks: "taskChan (staleness_step w pe s) = taskChan s @ stale_task w pe"
  by (simp add: staleness_step_def stale_task_def Let_def split: sum.splits)

lemma step_known:
  "knownFiles (staleness_step w pe s) =
     knownFiles s \<union> (if isl (Stat w (modelPath w (fst pe))) then {} else {modelPath w (fst pe)})"
  by (auto simp: staleness_step_def Let_def split: sum.splits)

lemma step_hashes:
  "Hashes (result (staleness_step w pe s)) =
     (if isl (Stat w (modelPath w (fst pe)))
      then filter (\<lambda>kv. fst kv \<noteq> fst pe) (Hashes (result s)) else Hashes (result s))"
  by (auto simp: staleness_step_def Let_def AList.delete_eq split: sum.splits intro!: filter_cong)

lemma step_addnet: "HashesAddnet (result (staleness_step w pe s)) = HashesAddnet (result s)"
  by (simp add: staleness_step_def Let_def split: sum.splits)

lemma fold_staleness_tasks:
  "taskChan (fold (staleness_step w) xs s) = taskChan s @ concat (map (stale_task w) xs)"
  by (induction xs arbitrary: s) (simp_all add: step_tasks)

lemma fold_staleness_known:
  "knownFiles (fold (staleness_step w) xs s) =
     knownFiles s \<union>
       (\<lambda>pe. modelPath w (fst pe)) ` {pe \<in> set xs. \<not> isl (Stat w (modelPath w (fst pe)))}"
proof (induction xs arbitrary: s)
  case Nil
  then show ?case by simp
next
  case (Cons x xs)
  show ?case
    unfolding fold_simps Cons.IH step_known by auto
qed

lemma fold_staleness_hashes:
  "Hashes (result (fold (staleness_step w) xs s)) =
     filter (\<lambda>kv. \<forall>pe \<in> set xs. fst pe = fst kv \<longrightarrow> \<not> isl (Stat w (modelPath w (fst pe))))
       (Hashes (result s))"
proof (induction xs arbitrary: s)
  case Nil
  then show ?case by simp
next
  case (Cons x xs)
  show ?case
    unfolding fold_simps Cons.IH step_hashes
    by (auto intro!: filter_cong)
qed

lemma fold_staleness_addnet:
  "HashesAddnet (result (fold (staleness_step w) xs s)) = HashesAddnet (result s)"
  by (induction xs arbitrary: s) (simp_all add: step_addnet)

lemma walk_fn_tasks: "taskChan (walk_fn w v s) = taskChan s @ scan_task w (knownFiles s) v"
  by (simp add: walk_fn_def scan_task_def Let_def split: visit.splits)

lemma walk_fn_known: "knownFiles (walk_fn w v s) = knownFiles s"
  by (simp add: walk_fn_def Let_def split: visit.splits)

lemma walk_fn_result: "result (walk_fn w v s) = result s"
  by (simp add: walk_fn_def Let_def split: visit.splits)

lemma fold_walk_known: "knownFiles (fold (walk_fn w) vs s) = knownFiles s"
  by (induction vs arbitrary: s) (simp_all add: walk_fn_known)

lemma fold_walk_result: "result (fold (walk_fn w) vs s) = result s"
  by (induction vs arbitrary: s) (simp_all add: walk_fn_result)

lemma fold_walk_tasks:
  "taskChan (fold (walk_fn w) vs s) = taskChan s @ concat (map (scan_task w (knownFiles s)) vs)"
  by (induction vs arbitrary: s) (simp_all add: walk_fn_tasks walk_fn_known)

lemma staleness_hashes:
  "Hashes (result (staleness w (init c))) =
     filter (\<lambda>kv. \<not> isl (Stat w (modelPath w (fst kv)))) (Hashes c)"
  unfolding staleness_def init_def
  by (auto simp: fold_staleness_hashes intro!: filter_cong)

lemma staleness_known:
  "knownFiles (staleness w (init c)) =
     (\<lambda>pe. modelPath w (fst pe)) `
       {pe \<in> set (Hashes c). \<not> isl (Stat w (modelPath w (fst pe)))}"
  unfolding staleness_def init_def by (simp add: fold_staleness_known)

lemma staleness_tasks:
  "taskChan (staleness w (init c)) = concat (map (stale_task w) (Hashes c))"
  unfolding staleness_def init_def by (simp add: fold_staleness_tasks)

lemma staleness_addnet:
  "HashesAddnet (result (staleness w (init c))) = HashesAddnet c"
  unfolding staleness_def init_def by (simp add: fold_staleness_addnet)

lemma TrimPrefix_append: "TrimPrefix (pre @ r) pre = r"
  by (simp add: TrimPrefix_def)

lemma modelPath_key: "modelPath w (''checkpoint/'' @ rel) = Join w (Path w) rel"
  unfolding modelPath_def TrimPrefix_append ..

lemma TrimPrefix_other: "take (length pre) p \<noteq> pre \<Longrightarrow> TrimPrefix p pre = p"
  by (simp add: TrimPrefix_def)

lemma collect_step_map:
  "map_of (Hashes (collect_step w e c)) =
     (case key_of w e of None \<Rightarrow> map_of (Hashes c) | Some k \<Rightarrow> (map_of (Hashes c))(k \<mapsto> e))"
  by (simp add: collect_step_def key_of_def update_conv' split: sum.splits)

lemma collect_step_addnet: "HashesAddnet (collect_step w e c) = HashesAddnet c"
  by (simp add: collect_step_def split: sum.splits)

lemma collector_addnet: "HashesAddnet (collector w es c) = HashesAddnet c"
  unfolding collector_def
  by (induction es arbitrary: c) (simp_all add: collect_step_addnet)

lemma collector_untouched:
  "\<forall>e \<in> set es. key_of w e \<noteq> Some k \<Longrightarrow>
     map_of (Hashes (collector w es c)) k = map_of (Hashes c) k"
  unfolding collector_def
proof (induction es arbitrary: c)
  case Nil
  then show ?case by simp
next
  case (Cons x xs)
  have "map_of (Hashes (collect_step w x c)) k = map_of (Hashes c) k"
    using Cons.prems by (cases "key_of w x") (auto simp: collect_step_map)
  with Cons show ?case by simp
qed

lemma collector_merged:
  "e \<in> set es \<Longrightarrow> key_of w e = Some k \<Longrightarrow>
     \<exists>e' \<in> set es. key_of w e' = Some k \<and> map_of (Hashes (collector w es c)) k = Some e'"
proof (induction es arbitrary: c e)
  case Nil
  then show ?case by simp
next
  case (Cons x xs)
  show ?case
  proof (cases "\<exists>y \<in> set xs. key_of w y = Some k")
    case True
    then obtain y where "y \<in> set xs" "key_of w y = Some k" by blast
    from Cons.IH[OF this, of "collect_step w x c"] show ?thesis
      by (auto simp: collector_def)
  next
    case False
    then have x: "key_of w x = Some k" using Cons.prems by auto
    have "map_of (Hashes (collector w xs (collect_step w x c))) k
            = map_of (Hashes (collect_step w x c)) k"
      using False by (intro collector_untouched) auto
    also have "\<dots> = Some x" using x by (simp add: collect_step_map)
    finally show ?thesis using x by (auto simp: collector_def)
  qed
qed

lemma resultChan_iff: "e \<in> set (resultChan w ts) \<longleftrightarrow> (\<exists>t \<in> set ts. worker w t = Inr e)"
  by (induction ts) (auto simp: resultChan_def split: sum.splits)

lemma worker_Inr:
  assumes "worker w t = Inr e"
  obtains info f h where "Info (d t) = Inr info" "Open w (task.path t) = Inr f"
    "worker_loop f New = Inr h"
    "e = \<lparr>MTime = fadd (fdiv (f64 (of_int (UnixNano (ModTime info)))) (f64 (10 ^ 9))) (f64 1),
          SHA256 = Sprintf_x (Sum256 w h), path = task.path t\<rparr>"
  using assms by (auto simp: worker_def Let_def Sum_def split: sum.splits)

lemma worker_path: "worker w t = Inr e \<Longrightarrow> entry.path e = task.path t"
  by (erule worker_Inr) simp

lemma worker_loop_chunks:
  "\<forall>r \<in> set f. fst r \<noteq> [] \<and> snd r = None \<Longrightarrow>
     worker_loop f h = Inr (h @ concat (map fst f))"
  by (induction f h rule: worker_loop.induct) (auto simp: Write_def)

lemma producers_tasks:
  "taskChan (producers w c) =
     concat (map (stale_task w) (Hashes c)) @
     concat (map (scan_task w (knownFiles (staleness w (init c)))) (WalkDir w (Path w)))"
  by (simp add: producers_def scan_def fold_walk_tasks staleness_tasks)

lemma producers_result: "result (producers w c) = result (staleness w (init c))"
  by (simp add: producers_def scan_def fold_walk_result)

lemma main_Some:
  "main w (Some c) =
     collector w (resultChan w (taskChan (producers w c))) (result (staleness w (init c)))"
  by (simp add: main_def Let_def producers_result)

lemma main_None: "main w None = main w (Some \<lparr>Hashes = [], HashesAddnet = None\<rparr>)"
  by (simp add: main_def)

lemma stale_task_path: "t \<in> set (stale_task w pe) \<Longrightarrow>
  task.path t = modelPath w (fst pe) \<and> (\<exists>fi. Stat w (modelPath w (fst pe)) = Inr fi \<and> changed w fi (snd pe) \<and> d t = FileInfoToDirEntry fi)"
  by (cases "Stat w (modelPath w (fst pe))") (auto simp: stale_task_def split: if_splits)

lemma scan_task_path: "t \<in> set (scan_task w known v) \<Longrightarrow>
  task.path t \<notin> known \<and> (ToLower w (Ext w (task.path t)) = ''.safetensors'' \<or> ToLower w (Ext w (task.path t)) = ''.ckpt'')
   \<and> v = Visit (task.path t) (d t) None \<and> \<not> DirEntry.IsDir (d t)"
  by (auto simp: scan_task_def split: visit.splits if_splits)

text \<open>A result merged under key p was hashed from the file that p stands for.\<close>
lemma keyed_result_path:
  assumes law: "rel_join_law w ts" and e: "e \<in> set (resultChan w ts)" and k: "key_of w e = Some p"
  shows "entry.path e = modelPath w p"
proof -
  from e obtain t where t: "t \<in> set ts" "worker w t = Inr e" by (auto simp: resultChan_iff)
  then have pe: "entry.path e = task.path t" by (simp add: worker_path)
  from k obtain rel where rel: "Rel w (Path w) (entry.path e) = Inr rel" "p = ''checkpoint/'' @ rel"
    by (auto simp: key_of_def split: sum.splits)
  from law t(1) rel(1) pe have "Join w (Path w) rel = task.path t"
    by (auto simp: rel_join_law_def list_all_iff)
  then show ?thesis unfolding rel(2) modelPath_key pe ..
qed

lemma map_of_filter_key:
  "map_of (filter (\<lambda>kv. Q (fst kv)) xs) k = (if Q k then map_of xs k else None)"
  by (induction xs) auto





lemma staleness_kept:
  "map_of (Hashes (result (staleness w (init c)))) k =
     (if isl (Stat w (modelPath w k)) then None else map_of (Hashes c) k)"
  unfolding staleness_hashes
  using map_of_filter_key[of "\<lambda>k. \<not> isl (Stat w (modelPath w k))" "Hashes c" k] by simp

lemma task_cases:
  assumes "t \<in> set (taskChan (producers w c))"
  obtains (stale) pe where "pe \<in> set (Hashes c)" "t \<in> set (stale_task w pe)"
  | (scanned) v where "v \<in> set (WalkDir w (Path w))"
      "t \<in> set (scan_task w (knownFiles (staleness w (init c))) v)"
  using assms unfolding producers_tasks by auto

lemma known_iff:
  "q \<in> knownFiles (staleness w (init c)) \<longleftrightarrow>
     (\<exists>pe \<in> set (Hashes c). q = modelPath w (fst pe) \<and> \<not> isl (Stat w q))"
  unfolding staleness_known by auto

text \<open>A task for the path of a kept entry comes from the staleness loop.\<close>
lemma task_of_known_path:
  assumes t: "t \<in> set (taskChan (producers w c))"
    and k: "task.path t \<in> knownFiles (staleness w (init c))"
  obtains pe fi where "pe \<in> set (Hashes c)" "task.path t = modelPath w (fst pe)"
    "Stat w (task.path t) = Inr fi" "changed w fi (snd pe)"
    "t = \<lparr>path = task.path t, d = FileInfoToDirEntry fi\<rparr>"
  using t
proof (cases rule: task_cases)
  case (stale pe)
  from stale_task_path[OF stale(2)] obtain fi where
    "task.path t = modelPath w (fst pe)" "Stat w (modelPath w (fst pe)) = Inr fi"
    "changed w fi (snd pe)" "d t = FileInfoToDirEntry fi" by blast
  then show ?thesis using that[of pe fi] stale(1) by simp
next
  case (scanned v)
  from scan_task_path[OF scanned(2)] k show ?thesis by simp
qed

lemma key_of_prefixed: "key_of w e = Some k \<Longrightarrow> take (length ''checkpoint/'') k = ''checkpoint/''"
  by (auto simp: key_of_def split: sum.splits)

lemma key_of_worker:
  "worker w t = Inr e \<Longrightarrow> Rel w (Path w) (task.path t) = Inr rel \<Longrightarrow>
     key_of w e = Some (''checkpoint/'' @ rel)"
  unfolding key_of_def by (simp add: worker_path)

lemma law_task:
  "rel_join_law w ts \<Longrightarrow> t \<in> set ts \<Longrightarrow> Rel w (Path w) (task.path t) = Inr rel \<Longrightarrow>
     Join w (Path w) rel = task.path t"
  by (auto simp: rel_join_law_def list_all_iff)

section \<open>The stored time and its text\<close>

lemma digit_val_table: "\<forall>k \<in> set [0..<10]. digit_val (''0123456789'' ! k) = k"
  by code_simp

lemma digit_val_digit_char: "digit_val (digit_char n) = n mod 10"
proof -
  have "n mod 10 \<in> set [0..<10]" by simp
  then show ?thesis
    unfolding digit_char_def using digit_val_table by (simp only: mod_mod_trivial)
qed

lemma ParseUint_snoc: "ParseUint (s @ [c]) = 10 * ParseUint s + digit_val c"
  by (simp add: ParseUint_def)

lemma ParseUint_decimal: "ParseUint (decimal n) = n"
proof (induction n rule: decimal.induct)
  case (1 n)
  show ?case
  proof (cases "n < 10")
    case True
    then show ?thesis
      by (subst decimal.simps) (simp add: ParseUint_def digit_val_digit_char)
  next
    case False
    then show ?thesis
      using "1.IH" by (subst decimal.simps) (simp add: ParseUint_snoc digit_val_digit_char)
  qed
qed

lemma ParseUint_zeros: "ParseUint (replicate j (CHR ''0'') @ s) = ParseUint s"
proof -
  have "foldl (\<lambda>a c. 10 * a + digit_val c) 0 (replicate j (CHR ''0'')) = 0"
    by (induction j) (simp_all add: digit_val_def)
  then show ?thesis by (simp add: ParseUint_def)
qed

lemma ParseUint_frac7: "ParseUint (frac7 n) = n"
  by (simp add: frac7_def ParseUint_zeros ParseUint_decimal)

lemma is_digit_not_point: "is_digit c \<Longrightarrow> c \<noteq> CHR ''.'' \<and> c \<noteq> CHR ''-''"
  by (auto simp: is_digit_def)

lemma takeWhile_digits: "list_all is_digit ds \<Longrightarrow> takeWhile (\<lambda>c. c \<noteq> CHR ''.'') (ds @ CHR ''.'' # fs) = ds"
  by (induction ds) (auto dest: is_digit_not_point)

lemma decimal_text:
  assumes "list_all is_digit ds" "ds \<noteq> []"
  shows "decimal_neg ((if b then ''-'' else []) @ ds @ ''.'' @ fs) = b"
    and "decimal_mag ((if b then ''-'' else []) @ ds @ ''.'' @ fs) =
           of_nat (ParseUint ds) + of_nat (ParseUint fs) / 10 ^ length fs"
proof -
  obtain c cs where ds: "ds = c # cs" using assms(2) by (cases ds) auto
  then have c: "c \<noteq> CHR ''-''" using assms(1) by (auto dest: is_digit_not_point)
  show neg: "decimal_neg ((if b then ''-'' else []) @ ds @ ''.'' @ fs) = b"
    using c ds by (simp add: decimal_neg_def)
  have u: "(if decimal_neg ((if b then ''-'' else []) @ ds @ ''.'' @ fs)
            then drop 1 ((if b then ''-'' else []) @ ds @ ''.'' @ fs)
            else (if b then ''-'' else []) @ ds @ ''.'' @ fs) = ds @ ''.'' @ fs"
    unfolding neg by simp
  have tw: "takeWhile (\<lambda>c. c \<noteq> CHR ''.'') (ds @ ''.'' @ fs) = ds"
    using takeWhile_digits[OF assms(1)] by simp
  show "decimal_mag ((if b then ''-'' else []) @ ds @ ''.'' @ fs) =
           of_nat (ParseUint ds) + of_nat (ParseUint fs) / 10 ^ length fs"
    unfolding decimal_mag_def Let_def u tw by simp
qed

lemma div_mod_rat:
  "(of_nat (n div K) :: rat) + of_nat (n mod K) / of_nat K = of_nat n / of_nat K" if "0 < K"
proof -
  have "(of_nat n :: rat) = of_nat (K * (n div K) + n mod K)" by simp
  also have "\<dots> = of_nat K * of_nat (n div K) + of_nat (n mod K)"
    by (simp only: of_nat_add of_nat_mult)
  finally show ?thesis using that by (simp add: field_simps)
qed

lemma MarshalJSON_text:
  "MarshalJSON m =
     (if signbit m then ''-'' else []) @
     decimal (nat (round_half_even (mag m * 10 ^ 7)) div 10 ^ 7) @ ''.'' @
     frac7 (nat (round_half_even (mag m * 10 ^ 7)) mod 10 ^ 7)"
  by (simp add: MarshalJSON_def Sprintf_7f_def Let_def)

text \<open>The text denotes the stored number rounded to seven decimals, with its sign.\<close>

lemma MarshalJSON_neg: "decimal_neg (MarshalJSON m) = signbit m"
  unfolding MarshalJSON_text
  by (rule decimal_text) (simp_all add: decimal_digits decimal_nonempty)

lemma MarshalJSON_mag:
  assumes "0 \<le> mag m"
  shows "decimal_mag (MarshalJSON m) = of_int (round_half_even (mag m * 10 ^ 7)) / 10 ^ 7"
proof -
  define n where "n = nat (round_half_even (mag m * 10 ^ 7))"
  have n: "of_nat n = (of_int (round_half_even (mag m * 10 ^ 7)) :: rat)"
    unfolding n_def using rhe_nonneg[of "mag m * 10 ^ 7"] assms by simp
  have len: "length (frac7 (n mod 10 ^ 7)) = 7" by (simp add: frac7_length)
  have "decimal_mag (MarshalJSON m) =
          of_nat (ParseUint (decimal (n div 10 ^ 7))) +
          of_nat (ParseUint (frac7 (n mod 10 ^ 7))) / 10 ^ length (frac7 (n mod 10 ^ 7))"
    unfolding MarshalJSON_text n_def[symmetric]
    by (rule decimal_text) (simp_all add: decimal_digits decimal_nonempty)
  also have "\<dots> = of_nat (n div 10 ^ 7) + of_nat (n mod 10 ^ 7) / of_nat (10 ^ 7)"
    unfolding len by (simp only: ParseUint_decimal ParseUint_frac7 of_nat_power of_nat_numeral)
  also have "\<dots> = of_nat n / of_nat (10 ^ 7)"
    by (rule div_mod_rat) simp
  finally show ?thesis unfolding n by (simp only: of_nat_power of_nat_numeral)
qed


lemma ParseFloat_MarshalJSON:
  assumes "0 \<le> mag m"
  shows "ParseFloat (MarshalJSON m) =
           \<lparr>signbit = signbit m, mag = rnd (of_int (round_half_even (mag m * 10 ^ 7)) / 10 ^ 7)\<rparr>"
  by (simp add: ParseFloat_def MarshalJSON_neg MarshalJSON_mag[OF assms])



lemma rnd_ge_float:
  assumes "0 \<le> y" "y \<le> x" "rnd y = y"
  shows "y \<le> rnd x"
proof -
  have "0 \<le> x" using assms by simp
  from rnd_nearest[OF this assms(1) assms(3)] assms(2) show ?thesis by linarith
qed









text \<open>The encoder keeps the keys and encodes entry by entry.\<close>

lemma encode_map_keys_sorted: "sorted (map fst (encode_map m))"
  unfolding encode_map_def by (rule sorted_sort_key)

lemma set_encode_map: "set (encode_map m) = (\<lambda>ke. (fst ke, encode_entry (snd ke))) ` set m"
  unfolding encode_map_def by simp

lemma encode_map_keys_distinct:
  assumes "distinct (map fst m)"
  shows "distinct (map fst (encode_map m))"
proof -
  let ?E = "\<lambda>ke. (fst ke, encode_entry (snd ke))"
  have "map fst (map ?E m) = map fst m" by simp
  then have "distinct (map fst (map ?E m))" using assms by (simp only:)
  then have "distinct (map ?E m) \<and> inj_on fst (set (map ?E m))" by (simp only: distinct_map)
  then have "distinct (sort_key fst (map ?E m)) \<and> inj_on fst (set (sort_key fst (map ?E m)))"
    by (simp only: distinct_sort set_sort)
  then show ?thesis unfolding encode_map_def by (simp only: distinct_map)
qed

lemma encode_map_Nil: "encode_map m = [] \<longleftrightarrow> m = []"
proof -
  have "length (encode_map m) = length m" by (simp add: encode_map_def)
  then show ?thesis by (metis length_0_conv)
qed

lemma main_addnet: "HashesAddnet (main w (Some c)) = HashesAddnet c"
  unfolding main_Some by (simp add: collector_addnet staleness_addnet)

section \<open>The claims\<close>






text \<open>
  Beyond the range the test wraps around: a stored time of \<open>10\<^sup>1\<^sup>9\<close> seconds, which no
  \<^verbatim>\<open>int64\<close> holds, is converted to \<open>-2\<^sup>6\<^sup>3\<close> on \<^verbatim>\<open>amd64\<close>, and a stored time of
  9223372036800000000 seconds leaves the seconds of the library; in both cases the
  file is sent to be hashed.
\<close>

lemma wrapped_time_rehashed:
  "float64_ok (f64 10000000000000000000) \<and> float64_ok (f64 9223372036800000000)
   \<and> changed w1 fi_a \<lparr>MTime = f64 10000000000000000000, SHA256 = ''00'', path = []\<rparr>
   \<and> changed w1 fi_a \<lparr>MTime = f64 9223372036800000000, SHA256 = ''00'', path = []\<rparr>"
proof -
  have a: "rnd 10000000000000000000 = 10000000000000000000"
    using float_fixed[of 19073486328125 19] by simp
  have b: "rnd 9223372036800000000 = 9223372036800000000"
    using float_fixed[of 2251799813671875 12] by simp
  show ?thesis
    by (simp add: eval_defs eval_data float64_ok_def a b)
qed


text \<open>
  Claim C2, as the code has it. The \<^verbatim>\<open>continue\<close> of line 142 skips line 148: the known
  paths are exactly the paths of the entries that are kept, and the scan sends no task
  for a known path.
\<close>

theorem known_paths_are_kept_entries:
  "knownFiles (staleness w (init c)) =
     (\<lambda>pe. modelPath w (fst pe)) ` {pe \<in> set (Hashes c). \<not> isl (Stat w (modelPath w (fst pe)))}
   \<and> (\<forall>t \<in> set (drop (length (taskChan (staleness w (init c)))) (taskChan (producers w c))).
         task.path t \<notin> knownFiles (staleness w (init c)))"
proof -
  have "task.path t \<notin> knownFiles (staleness w (init c))"
    if "t \<in> set (drop (length (taskChan (staleness w (init c)))) (taskChan (producers w c)))" for t
  proof -
    from that obtain v where "t \<in> set (scan_task w (knownFiles (staleness w (init c))) v)"
      unfolding producers_tasks staleness_tasks by auto
    from scan_task_path[OF this] show ?thesis by simp
  qed
  then show ?thesis using staleness_known by blast
qed

theorem known_paths_are_kept_entries_witness:
  "t1 \<in> set (drop (length (taskChan (staleness w1 (init c_gone)))) (taskChan (producers w1 c_gone)))
   \<and> task.path t1 \<notin> knownFiles (staleness w1 (init c_gone))"
proof -
  have h: "t1 \<in> set (drop (length (taskChan (staleness w1 (init c_gone)))) (taskChan (producers w1 c_gone)))"
    by (simp add: eval_defs eval_data)
  from known_paths_are_kept_entries[of w1 c_gone] h show ?thesis by blast
qed


text \<open>
  The path of a removed entry is not recorded: when the walk still reports it (a
  symbolic link whose target is gone), the scan sends a task for it.
\<close>

theorem known_paths_counterexample:
  "(''checkpoint/gone.ckpt'', e_old) \<in> set (Hashes c_gone)
   \<and> Stat w_link (modelPath w_link ''checkpoint/gone.ckpt'') = Inl ENOENT
   \<and> modelPath w_link ''checkpoint/gone.ckpt'' \<notin> knownFiles (staleness w_link (init c_gone))
   \<and> taskChan (staleness w_link (init c_gone)) = []
   \<and> taskChan (producers w_link c_gone) =
        [\<lparr>path = modelPath w_link ''checkpoint/gone.ckpt'', d = \<lparr>IsDir = False, Info = Inr fi_a\<rparr>\<rparr>]"
  by (simp add: eval_defs eval_data)


text \<open>
  Claim C3 at a failing input. A file that opens and whose first read fails without
  bytes (a directory named by a cache key: \<^verbatim>\<open>EISDIR\<close>) makes the worker return an entry
  and no error: line 70 looks at the error only when the read brought bytes.
\<close>

theorem read_error_not_reported:
  "worker (w\<lparr>Open := \<lambda>q. Inr [([], Some EISDIR)]\<rparr>)
          \<lparr>path = p, d = \<lparr>IsDir = True, Info = Inr fi\<rparr>\<rparr>
     = Inr \<lparr>MTime = fadd (fdiv (f64 (of_int (UnixNano (ModTime fi)))) (f64 (10 ^ 9))) (f64 1),
            SHA256 = Sprintf_x (Sum256 w []), path = p\<rparr>"
  by (simp add: worker_def Write_def New_def Sum_def)


text \<open>A read that brings bytes and an error is returned as an error before line 74 writes them.\<close>

lemma partial_read_error_returned: "worker_loop ((b # bs, Some err) # f) h = Inl err"
  by simp


text \<open>
  Claim C4 at a failing input. When a read fails without bytes after the first chunk,
  the worker completes without error and records the digest of the first chunk only,
  whatever the file holds after it.
\<close>

theorem digest_of_truncated_read:
  "worker (w\<lparr>Open := \<lambda>q. Inr [(b # bs, None), ([], Some EIO), (rest, None)]\<rparr>)
          \<lparr>path = p, d = \<lparr>IsDir = False, Info = Inr fi\<rparr>\<rparr>
     = Inr \<lparr>MTime = fadd (fdiv (f64 (of_int (UnixNano (ModTime fi)))) (f64 (10 ^ 9))) (f64 1),
            SHA256 = Sprintf_x (Sum256 w (b # bs)), path = p\<rparr>"
  by (simp add: worker_def Write_def New_def Sum_def)


text \<open>
  When all reads succeed, the digest is that of the whole content, however the reads cut
  it into chunks of at most 16384 bytes, in lowercase hexadecimal.
\<close>

lemma worker_digest_of_chunks:
  assumes "Info (d t) = Inr info" "Open w (task.path t) = Inr f"
    and "\<forall>r \<in> set f. fst r \<noteq> [] \<and> length (fst r) \<le> 16384 \<and> snd r = None"
  shows "\<exists>e. worker w t = Inr e \<and> SHA256 e = Sprintf_x (Sum256 w (concat (map fst f)))
           \<and> set (SHA256 e) \<subseteq> set ''0123456789abcdef''"
proof -
  have "worker_loop f New = Inr (concat (map fst f))"
    using worker_loop_chunks[of f New] assms(3) by (simp add: New_def)
  then show ?thesis using assms(1,2) Sprintf_x_lower
    by (simp add: worker_def Let_def Sum_def)
qed


text \<open>
  Claim C6, as the code has it. An entry whose path cannot be stat-ed is deleted by the
  staleness loop, which sends no task for the path. The scan may still send one, when
  the walk reports the path; such a task yields no entry, no result is computed for the
  path, and the key is absent from the output. The last three rest on the two properties
  of the host.
\<close>

theorem missing_file_entry_removed:
  assumes pe: "(p, e) \<in> set (Hashes c)"
    and st: "isl (Stat w (modelPath w p))"
    and law: "rel_join_law w (taskChan (producers w c))"
    and fs: "stat_open_law w (taskChan (producers w c))"
  shows "map_of (Hashes (result (staleness w (init c)))) p = None
       \<and> (\<forall>t \<in> set (taskChan (staleness w (init c))). task.path t \<noteq> modelPath w p)
       \<and> (\<forall>t \<in> set (taskChan (producers w c)). task.path t = modelPath w p \<longrightarrow> isl (worker w t))
       \<and> (\<forall>e' \<in> set (resultChan w (taskChan (producers w c))). entry.path e' \<noteq> modelPath w p)
       \<and> map_of (Hashes (main w (Some c))) p = None"
proof -
  have 1: "map_of (Hashes (result (staleness w (init c)))) p = None"
    using st by (simp add: staleness_kept)
  have 2: "task.path t \<noteq> modelPath w p" if "t \<in> set (taskChan (staleness w (init c)))" for t
  proof -
    from that obtain pe' where "t \<in> set (stale_task w pe')"
      unfolding staleness_tasks by auto
    from stale_task_path[OF this] have "\<not> isl (Stat w (task.path t))" by auto
    with st show ?thesis by auto
  qed
  have 3: "entry.path e' \<noteq> modelPath w p"
    if "e' \<in> set (resultChan w (taskChan (producers w c)))" for e'
  proof -
    from that obtain t where t: "t \<in> set (taskChan (producers w c))" "worker w t = Inr e'"
      by (auto simp: resultChan_iff)
    from t(2) have "\<not> isl (Open w (task.path t))" by (rule worker_Inr) simp
    with fs t(1) have "\<not> isl (Stat w (task.path t))"
      by (auto simp: stat_open_law_def list_all_iff)
    with st worker_path[OF t(2)] show ?thesis by auto
  qed
  have 5: "isl (worker w t)"
    if t: "t \<in> set (taskChan (producers w c))" "task.path t = modelPath w p" for t
  proof (cases "worker w t")
    case (Inl err)
    then show ?thesis by simp
  next
    case (Inr e')
    then have "e' \<in> set (resultChan w (taskChan (producers w c)))"
      using t(1) by (auto simp: resultChan_iff)
    with 3 worker_path[OF Inr] t(2) show ?thesis by auto
  qed
  have "\<forall>e' \<in> set (resultChan w (taskChan (producers w c))). key_of w e' \<noteq> Some p"
    using 3 keyed_result_path[OF law] by blast
  then have 4: "map_of (Hashes (main w (Some c))) p = None"
    unfolding main_Some using 1 by (simp add: collector_untouched)
  from 1 2 3 4 5 show ?thesis by blast
qed

theorem missing_file_entry_removed_witness:
  "(''checkpoint/gone.ckpt'', e_old) \<in> set (Hashes c_gone)
   \<and> isl (Stat w1 (modelPath w1 ''checkpoint/gone.ckpt''))
   \<and> rel_join_law w1 (taskChan (producers w1 c_gone))
   \<and> stat_open_law w1 (taskChan (producers w1 c_gone))
   \<and> taskChan (producers w1 c_gone) = [t1]
   \<and> map_of (Hashes (main w1 (Some c_gone))) ''checkpoint/gone.ckpt'' = None"
proof -
  have h1: "(''checkpoint/gone.ckpt'', e_old) \<in> set (Hashes c_gone)"
    by (simp add: c_gone_def)
  have h2: "isl (Stat w1 (modelPath w1 ''checkpoint/gone.ckpt''))"
    by (simp add: eval_defs eval_data)
  have h5: "taskChan (producers w1 c_gone) = [t1]"
    by (simp add: eval_defs eval_data)
  have h3: "rel_join_law w1 (taskChan (producers w1 c_gone))"
    unfolding h5 by (simp add: eval_defs eval_data)
  have h4: "stat_open_law w1 (taskChan (producers w1 c_gone))"
    unfolding h5 by (simp add: eval_defs eval_data)
  from missing_file_entry_removed[OF h1 h2 h3 h4] h1 h2 h3 h4 h5 show ?thesis by blast
qed


text \<open>
  The claim as the specification words it fails: when the walk still reports the path of
  the removed entry (a symbolic link whose target is gone), the run does schedule a
  hashing task for it, under both properties of the host; the worker fails to open the
  file and the output has no entry.
\<close>

theorem missing_entry_scanned_counterexample:
  "(''checkpoint/gone.ckpt'', e_old) \<in> set (Hashes c_gone)
   \<and> isl (Stat w_link (modelPath w_link ''checkpoint/gone.ckpt''))
   \<and> rel_join_law w_link (taskChan (producers w_link c_gone))
   \<and> stat_open_law w_link (taskChan (producers w_link c_gone))
   \<and> \<lparr>path = modelPath w_link ''checkpoint/gone.ckpt'', d = \<lparr>IsDir = False, Info = Inr fi_a\<rparr>\<rparr>
        \<in> set (taskChan (producers w_link c_gone))
   \<and> worker w_link \<lparr>path = modelPath w_link ''checkpoint/gone.ckpt'',
                     d = \<lparr>IsDir = False, Info = Inr fi_a\<rparr>\<rparr> = Inl ENOENT
   \<and> Hashes (main w_link (Some c_gone)) = []"
  by (simp add: eval_defs eval_data)


text \<open>
  Claim C7, as the code has it. A regular file the walk visits, with a recognised
  extension, that no cache key stands for and whose hashing succeeds, is in the output
  under \<^verbatim>\<open>checkpoint/\<close> and its relative path, with the digest of its bytes; and the
  scan sends tasks for recognised extensions only.
\<close>

theorem new_file_discovered:
  assumes v: "Visit q de None \<in> set (WalkDir w (Path w))"
    and nd: "\<not> DirEntry.IsDir de"
    and ext: "ToLower w (Ext w q) = ''.safetensors'' \<or> ToLower w (Ext w q) = ''.ckpt''"
    and absent: "\<forall>pe \<in> set (Hashes c). modelPath w (fst pe) \<noteq> q"
    and info: "Info de = Inr info"
    and opn: "Open w q = Inr f"
    and reads: "\<forall>r \<in> set f. fst r \<noteq> [] \<and> snd r = None"
    and rel: "Rel w (Path w) q = Inr rel"
    and law: "rel_join_law w (taskChan (producers w c))"
  shows "(\<exists>e. map_of (Hashes (main w (Some c))) (''checkpoint/'' @ rel) = Some e
             \<and> entry.path e = q
             \<and> SHA256 e = Sprintf_x (Sum256 w (concat (map fst f))))
       \<and> (\<forall>t \<in> set (drop (length (taskChan (staleness w (init c)))) (taskChan (producers w c))).
             ToLower w (Ext w (task.path t)) = ''.safetensors''
           \<or> ToLower w (Ext w (task.path t)) = ''.ckpt'')"
proof -
  let ?t = "\<lparr>path = q, d = de\<rparr>"
  let ?rs = "resultChan w (taskChan (producers w c))"
  have nk: "q \<notin> knownFiles (staleness w (init c))"
    unfolding known_iff using absent by blast
  have tin: "?t \<in> set (taskChan (producers w c))"
  proof -
    have "?t \<in> set (scan_task w (knownFiles (staleness w (init c))) (Visit q de None))"
      using nd ext nk by (simp add: scan_task_def)
    then show ?thesis unfolding producers_tasks using v by auto
  qed
  have loop: "worker_loop f New = Inr (concat (map fst f))"
    using worker_loop_chunks[OF reads, of New] by (simp add: New_def)
  obtain e0 where wk: "worker w ?t = Inr e0"
    using info opn loop by (simp add: worker_def Let_def)
  then have ein: "e0 \<in> set ?rs" using tin by (auto simp: resultChan_iff)
  have key: "key_of w e0 = Some (''checkpoint/'' @ rel)"
    using key_of_worker[OF wk] rel by simp
  from collector_merged[OF ein key] obtain e where
    e: "e \<in> set ?rs" "key_of w e = Some (''checkpoint/'' @ rel)"
      "map_of (Hashes (main w (Some c))) (''checkpoint/'' @ rel) = Some e"
    unfolding main_Some by blast
  have jq: "Join w (Path w) rel = q" using law_task[OF law tin] rel by simp
  have pq: "entry.path e = q"
    using keyed_result_path[OF law e(1,2)] jq unfolding modelPath_key by simp
  from e(1) obtain t where t: "t \<in> set (taskChan (producers w c))" "worker w t = Inr e"
    by (auto simp: resultChan_iff)
  from t(2) obtain f' h where f': "Open w (task.path t) = Inr f'" "worker_loop f' New = Inr h"
    "SHA256 e = Sprintf_x (Sum256 w h)"
    by (rule worker_Inr) simp
  have "task.path t = q" using pq worker_path[OF t(2)] by simp
  with f' opn loop have "SHA256 e = Sprintf_x (Sum256 w (concat (map fst f)))" by simp
  with e(3) pq have 1: "\<exists>e. map_of (Hashes (main w (Some c))) (''checkpoint/'' @ rel) = Some e
             \<and> entry.path e = q
             \<and> SHA256 e = Sprintf_x (Sum256 w (concat (map fst f)))" by blast
  have 2: "ToLower w (Ext w (task.path t)) = ''.safetensors'' \<or> ToLower w (Ext w (task.path t)) = ''.ckpt''"
    if "t \<in> set (drop (length (taskChan (staleness w (init c)))) (taskChan (producers w c)))" for t
  proof -
    from that obtain v where "t \<in> set (scan_task w (knownFiles (staleness w (init c))) v)"
      unfolding producers_tasks staleness_tasks by auto
    from scan_task_path[OF this] show ?thesis by blast
  qed
  from 1 2 show ?thesis by blast
qed

theorem new_file_discovered_witness:
  "Visit ''models/a.ckpt'' \<lparr>IsDir = False, Info = Inr fi_a\<rparr> None \<in> set (WalkDir w1 (Path w1))
   \<and> ToLower w1 (Ext w1 ''models/a.ckpt'') = ''.ckpt''
   \<and> Open w1 ''models/a.ckpt'' = Inr f_a
   \<and> Rel w1 (Path w1) ''models/a.ckpt'' = Inr ''a.ckpt''
   \<and> rel_join_law w1 (taskChan (producers w1 c_empty))
   \<and> (\<exists>e. map_of (Hashes (main w1 (Some c_empty))) (''checkpoint/'' @ ''a.ckpt'') = Some e
           \<and> entry.path e = ''models/a.ckpt''
           \<and> SHA256 e = Sprintf_x (Sum256 w1 (concat (map fst f_a))))"
proof -
  let ?de = "\<lparr>IsDir = False, Info = Inr fi_a\<rparr>"
  have h1: "Visit ''models/a.ckpt'' ?de None \<in> set (WalkDir w1 (Path w1))" by (simp add: eval_defs eval_data)
  have h2: "\<not> DirEntry.IsDir ?de" by simp
  have h3: "ToLower w1 (Ext w1 ''models/a.ckpt'') = ''.ckpt''" by (simp add: eval_defs eval_data)
  have h4: "\<forall>pe \<in> set (Hashes c_empty). modelPath w1 (fst pe) \<noteq> ''models/a.ckpt''"
    by (simp add: c_empty_def)
  have h5: "Info ?de = Inr fi_a" by simp
  have h6: "Open w1 ''models/a.ckpt'' = Inr f_a" by (simp add: eval_defs eval_data)
  have h7: "\<forall>r \<in> set f_a. fst r \<noteq> [] \<and> snd r = None" by (simp add: f_a_def)
  have h8: "Rel w1 (Path w1) ''models/a.ckpt'' = Inr ''a.ckpt''" by (simp add: eval_defs eval_data)
  have h9: "rel_join_law w1 (taskChan (producers w1 c_empty))" by (simp add: eval_defs eval_data)
  have c: "\<exists>e. map_of (Hashes (main w1 (Some c_empty))) (''checkpoint/'' @ ''a.ckpt'') = Some e
           \<and> entry.path e = ''models/a.ckpt''
           \<and> SHA256 e = Sprintf_x (Sum256 w1 (concat (map fst f_a)))"
    using new_file_discovered[OF h1 h2 disjI2[OF h3] h4 h5 h6 h7 h8 h9] by (rule conjunct1)
  show ?thesis by (intro conjI h1 h3 h6 h8 h9 c)
qed


text \<open>
  A file with another extension does appear in the output when the input cache names
  it: the staleness loop does not look at extensions.
\<close>

theorem other_extension_counterexample:
  "ToLower w_txt (Ext w_txt ''models/notes.txt'') = ''.txt''
   \<and> Hashes (main w_txt (Some c_txt)) =
       [(''checkpoint/notes.txt'', \<lparr>MTime = f64 101, SHA256 = ''0306'', path = []\<rparr>)]"
  by (simp add: eval_defs eval_data)


text \<open>
  Claim C8, as the code has it. The pipeline never writes \<^verbatim>\<open>HashesAddnet\<close> and never makes
  one; the encoder leaves it out when it is nil or empty. When it has entries, the output
  has exactly its keys, in sorted order, each with the digest of the input and with the
  stored time written anew: the text denotes the stored number rounded to seven decimals.
\<close>

theorem addnet_passed_through:
  "HashesAddnet (main w (Some c)) = HashesAddnet c
   \<and> HashesAddnet (main w None) = None
   \<and> hashes_addnet (Encode (main w None)) = None
   \<and> (HashesAddnet c = None \<or> HashesAddnet c = Some []
         \<longrightarrow> hashes_addnet (Encode (main w (Some c))) = None)
   \<and> (\<forall>m. HashesAddnet c = Some m \<and> m \<noteq> [] \<and> distinct (map fst m)
             \<and> (\<forall>ke \<in> set m. 0 \<le> mag (MTime (snd ke))) \<longrightarrow>
        (\<exists>a. hashes_addnet (Encode (main w (Some c))) = Some a
           \<and> sorted (map fst a) \<and> distinct (map fst a) \<and> length a = length m
           \<and> (\<forall>ke \<in> set m.
                 \<exists>je. (fst ke, je) \<in> set a \<and> sha256 je = SHA256 (snd ke)
                    \<and> decimal_neg (mtime je) = signbit (MTime (snd ke))
                    \<and> decimal_mag (mtime je) =
                        of_int (round_half_even (mag (MTime (snd ke)) * 10 ^ 7)) / 10 ^ 7)))"
proof -
  have 1: "HashesAddnet (main w (Some c)) = HashesAddnet c" for c
    by (rule main_addnet)
  have 2: "HashesAddnet (main w None) = None" by (simp add: main_None 1)
  have 3: "hashes_addnet (Encode (main w None)) = None" by (simp add: Encode_def 2)
  have 4: "hashes_addnet (Encode (main w (Some c))) = None"
    if "HashesAddnet c = None \<or> HashesAddnet c = Some []"
    using that by (auto simp: Encode_def 1)
  have 5: "\<exists>a. hashes_addnet (Encode (main w (Some c))) = Some a
           \<and> sorted (map fst a) \<and> distinct (map fst a) \<and> length a = length m
           \<and> (\<forall>ke \<in> set m.
                 \<exists>je. (fst ke, je) \<in> set a \<and> sha256 je = SHA256 (snd ke)
                    \<and> decimal_neg (mtime je) = signbit (MTime (snd ke))
                    \<and> decimal_mag (mtime je) =
                        of_int (round_half_even (mag (MTime (snd ke)) * 10 ^ 7)) / 10 ^ 7)"
    if m: "HashesAddnet c = Some m \<and> m \<noteq> [] \<and> distinct (map fst m)
             \<and> (\<forall>ke \<in> set m. 0 \<le> mag (MTime (snd ke)))" for m
  proof -
    have a: "hashes_addnet (Encode (main w (Some c))) = Some (encode_map m)"
      using m by (simp add: Encode_def 1)
    have e: "\<exists>je. (fst ke, je) \<in> set (encode_map m) \<and> sha256 je = SHA256 (snd ke)
                    \<and> decimal_neg (mtime je) = signbit (MTime (snd ke))
                    \<and> decimal_mag (mtime je) =
                        of_int (round_half_even (mag (MTime (snd ke)) * 10 ^ 7)) / 10 ^ 7"
      if ke: "ke \<in> set m" for ke
    proof -
      have "(fst ke, encode_entry (snd ke)) \<in> set (encode_map m)"
        unfolding set_encode_map using ke by blast
      moreover have "0 \<le> mag (MTime (snd ke))" using m ke by blast
      ultimately show ?thesis
        by (intro exI[of _ "encode_entry (snd ke)"])
           (simp add: encode_entry_def MarshalJSON_neg MarshalJSON_mag)
    qed
    have l: "length (encode_map m) = length m" by (simp add: encode_map_def)
    from a e l encode_map_keys_sorted[of m] encode_map_keys_distinct[of m] m
    show ?thesis by blast
  qed
  from 1 2 3 4 5 show ?thesis by blast
qed

theorem addnet_passed_through_witness:
  "HashesAddnet c_empty = None
   \<and> hashes_addnet (Encode (main w1 (Some c_empty))) = None
   \<and> HashesAddnet c_both = Some [(''lora/x.safetensors'', e_frac)]
   \<and> distinct (map fst [(''lora/x.safetensors'', e_frac)])
   \<and> 0 \<le> mag (MTime e_frac)
   \<and> (\<exists>a. hashes_addnet (Encode (main w1 (Some c_both))) = Some a
         \<and> length a = 1
         \<and> (\<exists>je. (''lora/x.safetensors'', je) \<in> set a \<and> sha256 je = ''ab''
               \<and> decimal_neg (mtime je) = False
               \<and> decimal_mag (mtime je) = 39062 / 10 ^ 7))"
proof -
  have h1: "HashesAddnet c_empty = None" by (simp add: c_empty_def)
  have h2: "HashesAddnet c_both = Some [(''lora/x.safetensors'', e_frac)]" by (simp add: c_both_def)
  have h3: "distinct (map fst [(''lora/x.safetensors'', e_frac)])" by simp
  have h4: "0 \<le> mag (MTime e_frac)" by (simp add: e_frac_def)
  have r: "round_half_even (mag (MTime e_frac) * 10 ^ 7) = 39062"
    unfolding e_frac_def by code_simp
  from addnet_passed_through[of w1 c_empty] h1
  have c1: "hashes_addnet (Encode (main w1 (Some c_empty))) = None" by blast
  have "HashesAddnet c_both = Some [(''lora/x.safetensors'', e_frac)]
          \<and> [(''lora/x.safetensors'', e_frac)] \<noteq> []
          \<and> distinct (map fst [(''lora/x.safetensors'', e_frac)])
          \<and> (\<forall>ke \<in> set [(''lora/x.safetensors'', e_frac)]. 0 \<le> mag (MTime (snd ke)))"
    using h2 h4 by simp
  with addnet_passed_through[of w1 c_both] obtain a where
    a: "hashes_addnet (Encode (main w1 (Some c_both))) = Some a"
       "length a = length [(''lora/x.safetensors'', e_frac)]"
       "\<forall>ke \<in> set [(''lora/x.safetensors'', e_frac)].
          \<exists>je. (fst ke, je) \<in> set a \<and> sha256 je = SHA256 (snd ke)
             \<and> decimal_neg (mtime je) = signbit (MTime (snd ke))
             \<and> decimal_mag (mtime je) =
                 of_int (round_half_even (mag (MTime (snd ke)) * 10 ^ 7)) / 10 ^ 7"
    by blast
  from a(3) obtain je where
    je: "(''lora/x.safetensors'', je) \<in> set a" "sha256 je = SHA256 e_frac"
        "decimal_neg (mtime je) = signbit (MTime e_frac)"
        "decimal_mag (mtime je) = of_int (round_half_even (mag (MTime e_frac) * 10 ^ 7)) / 10 ^ 7"
    by auto
  have "sha256 je = ''ab''" using je(2) by (simp add: e_frac_def)
  moreover have "decimal_neg (mtime je) = False" using je(3) by (simp add: e_frac_def)
  moreover have "decimal_mag (mtime je) = 39062 / 10 ^ 7" using je(4) unfolding r by simp
  ultimately have c2: "\<exists>a. hashes_addnet (Encode (main w1 (Some c_both))) = Some a
         \<and> length a = 1
         \<and> (\<exists>je. (''lora/x.safetensors'', je) \<in> set a \<and> sha256 je = ''ab''
               \<and> decimal_neg (mtime je) = False
               \<and> decimal_mag (mtime je) = 39062 / 10 ^ 7)"
    using a(1,2) je(1) by auto
  show ?thesis by (intro conjI h1 c1 h2 h3 h4 c2)
qed


text \<open>
  The claim as the specification words it fails twice. A secondary mapping that is
  present and empty in the input is not in the output; and an entry of it is not
  reproduced unchanged: a stored time of 0.00390625, which is a float, is written as
  0.0039062.
\<close>

theorem addnet_empty_counterexample:
  "HashesAddnet c_addnet_empty = Some []
   \<and> hashes_addnet (Encode (main (tree_world []) (Some c_addnet_empty))) = None
   \<and> HashesAddnet c_both = Some [(''lora/x.safetensors'', e_frac)]
   \<and> float64_ok (MTime e_frac) \<and> float_val (MTime e_frac) = 1 / 256
   \<and> hashes_addnet (Encode (main w1 (Some c_both))) =
        Some [(''lora/x.safetensors'', \<lparr>mtime = MarshalJSON (MTime e_frac), sha256 = ''ab''\<rparr>)]
   \<and> decimal_neg (MarshalJSON (MTime e_frac)) = False
   \<and> decimal_mag (MarshalJSON (MTime e_frac)) = 39062 / 10 ^ 7
   \<and> (39062 / 10 ^ 7 :: rat) \<noteq> 1 / 256"
proof -
  have a: "HashesAddnet c_addnet_empty = Some []
           \<and> hashes_addnet (Encode (main (tree_world []) (Some c_addnet_empty))) = None"
    by (simp add: eval_defs eval_data)
  have b: "HashesAddnet c_both = Some [(''lora/x.safetensors'', e_frac)]" by (simp add: c_both_def)
  have f: "rnd (1 / 256) = 1 / 256" using float_fixed[of 1 "- 8"] by simp
  have c: "float64_ok (MTime e_frac) \<and> float_val (MTime e_frac) = 1 / 256"
    by (simp add: float64_ok_def e_frac_def f float_val_def)
  have d: "hashes_addnet (Encode (main w1 (Some c_both))) =
        Some [(''lora/x.safetensors'', \<lparr>mtime = MarshalJSON (MTime e_frac), sha256 = ''ab''\<rparr>)]"
    by (simp add: Encode_def main_addnet b encode_map_def encode_entry_def) (simp add: e_frac_def)
  have e: "decimal_neg (MarshalJSON (MTime e_frac)) = False"
    by (simp add: MarshalJSON_neg e_frac_def)
  have r: "round_half_even (mag (MTime e_frac) * 10 ^ 7) = 39062"
    unfolding e_frac_def by code_simp
  have "0 \<le> mag (MTime e_frac)" by (simp add: e_frac_def)
  from MarshalJSON_mag[OF this] have g: "decimal_mag (MarshalJSON (MTime e_frac)) = 39062 / 10 ^ 7"
    unfolding r by simp
  have h: "(39062 / 10 ^ 7 :: rat) \<noteq> 1 / 256" by simp
  show ?thesis
    by (intro conjI a[THEN conjunct1] a[THEN conjunct2] b c[THEN conjunct1] c[THEN conjunct2] d e g h)
qed







text \<open>
  Claim C10. A key without the prefix is joined to the root as it is; when its file is
  judged changed and hashed, the new entry is stored under \<^verbatim>\<open>checkpoint/\<close> and the
  relative path, and the entry under the old key stays as it was.
\<close>

theorem unprefixed_key_duplicates:
  assumes dist: "distinct (map fst (Hashes c))"
    and pe: "(p, e) \<in> set (Hashes c)"
    and np: "take (length ''checkpoint/'') p \<noteq> ''checkpoint/''"
    and st: "Stat w (Join w (Path w) p) = Inr fi"
    and ch: "changed w fi e"
    and wk: "worker w \<lparr>path = Join w (Path w) p, d = FileInfoToDirEntry fi\<rparr> = Inr e'"
    and rel: "Rel w (Path w) (Join w (Path w) p) = Inr rel"
    and law: "rel_join_law w (taskChan (producers w c))"
  shows "modelPath w p = Join w (Path w) p
       \<and> map_of (Hashes (main w (Some c))) p = Some e
       \<and> map_of (Hashes (main w (Some c))) (''checkpoint/'' @ rel) = Some e'
       \<and> p \<noteq> ''checkpoint/'' @ rel"
proof -
  let ?q = "Join w (Path w) p"
  let ?t = "\<lparr>path = ?q, d = FileInfoToDirEntry fi\<rparr>"
  let ?rs = "resultChan w (taskChan (producers w c))"
  have mp: "modelPath w p = ?q"
    unfolding modelPath_def TrimPrefix_other[OF np] ..
  have ne: "p \<noteq> ''checkpoint/'' @ rel" using np by auto
  have "\<forall>e'' \<in> set ?rs. key_of w e'' \<noteq> Some p"
    using key_of_prefixed np by blast
  then have "map_of (Hashes (main w (Some c))) p = map_of (Hashes (result (staleness w (init c)))) p"
    unfolding main_Some by (simp add: collector_untouched)
  also have "\<dots> = Some e" using st dist pe mp by (simp add: staleness_kept)
  finally have keep: "map_of (Hashes (main w (Some c))) p = Some e" .
  have tin: "?t \<in> set (taskChan (producers w c))"
  proof -
    have "?t \<in> set (stale_task w (p, e))" using st ch mp by (simp add: stale_task_def)
    then show ?thesis unfolding producers_tasks using pe by auto
  qed
  then have ein: "e' \<in> set ?rs" using wk by (auto simp: resultChan_iff)
  have key: "key_of w e' = Some (''checkpoint/'' @ rel)"
    using key_of_worker[OF wk] rel by simp
  from collector_merged[OF ein key] obtain e'' where
    e'': "e'' \<in> set ?rs" "key_of w e'' = Some (''checkpoint/'' @ rel)"
      "map_of (Hashes (main w (Some c))) (''checkpoint/'' @ rel) = Some e''"
    unfolding main_Some by blast
  have jq: "Join w (Path w) rel = ?q" using law_task[OF law tin] rel by simp
  have "entry.path e'' = ?q"
    using keyed_result_path[OF law e''(1,2)] jq unfolding modelPath_key by simp
  moreover from e''(1) obtain t where t: "t \<in> set (taskChan (producers w c))" "worker w t = Inr e''"
    by (auto simp: resultChan_iff)
  ultimately have tq: "task.path t = ?q" using worker_path by metis
  have known: "task.path t \<in> knownFiles (staleness w (init c))"
    unfolding known_iff tq using pe st mp by force
  from task_of_known_path[OF t(1) known] obtain fi' where
    "Stat w (task.path t) = Inr fi'" "t = \<lparr>path = task.path t, d = FileInfoToDirEntry fi'\<rparr>"
    by metis
  then have "t = ?t" using tq st by simp
  then have "e'' = e'" using t(2) wk by simp
  with e''(3) keep mp ne show ?thesis by simp
qed

theorem unprefixed_key_duplicates_witness:
  "distinct (map fst (Hashes c_bare))
   \<and> (''a.ckpt'', e_old) \<in> set (Hashes c_bare)
   \<and> take (length ''checkpoint/'') ''a.ckpt'' \<noteq> ''checkpoint/''
   \<and> Stat w1 (Join w1 (Path w1) ''a.ckpt'') = Inr fi_a
   \<and> changed w1 fi_a e_old
   \<and> worker w1 \<lparr>path = Join w1 (Path w1) ''a.ckpt'', d = FileInfoToDirEntry fi_a\<rparr> = Inr e_new
   \<and> Rel w1 (Path w1) (Join w1 (Path w1) ''a.ckpt'') = Inr ''a.ckpt''
   \<and> rel_join_law w1 (taskChan (producers w1 c_bare))
   \<and> map_of (Hashes (main w1 (Some c_bare))) ''a.ckpt'' = Some e_old
   \<and> map_of (Hashes (main w1 (Some c_bare))) (''checkpoint/'' @ ''a.ckpt'') = Some e_new"
proof -
  have h1: "distinct (map fst (Hashes c_bare))" by (simp add: c_bare_def)
  have h2: "(''a.ckpt'', e_old) \<in> set (Hashes c_bare)" by (simp add: c_bare_def)
  have h3: "take (length ''checkpoint/'') ''a.ckpt'' \<noteq> ''checkpoint/''" by simp
  have h4: "Stat w1 (Join w1 (Path w1) ''a.ckpt'') = Inr fi_a" by (simp add: eval_defs eval_data)
  have h5: "changed w1 fi_a e_old" by (simp add: eval_defs eval_data)
  have h6: "worker w1 \<lparr>path = Join w1 (Path w1) ''a.ckpt'', d = FileInfoToDirEntry fi_a\<rparr> = Inr e_new"
    by (simp add: eval_defs eval_data)
  have h7: "Rel w1 (Path w1) (Join w1 (Path w1) ''a.ckpt'') = Inr ''a.ckpt''" by (simp add: eval_defs eval_data)
  have h8: "rel_join_law w1 (taskChan (producers w1 c_bare))" by (simp add: eval_defs eval_data)
  from unprefixed_key_duplicates[OF h1 h2 h3 h4 h5 h6 h7 h8] h1 h2 h3 h4 h5 h6 h7 h8
  show ?thesis by blast
qed


end
